theory Spec2Isabelle
  imports Main
begin

section \<open>Static tables of LBPP.py\<close>

datatype TileType = EMPTY | STRAIGHT | ELBOW | T_JUNCTION | CROSS | POWER_SOURCE | LIGHT_BULB

datatype Direction = UP | RIGHT | DOWN | LEFT

text \<open>The exceptions the modelled code can raise: an index outside a list, and the
  enum constructor \<open>Direction(n)\<close> applied to a number that is no member's value.\<close>

datatype error = IndexError | ValueError

text \<open>\<open>d.value\<close> of the enum \<open>Direction\<close>.\<close>

fun Direction_value :: "Direction \<Rightarrow> nat" where
  "Direction_value UP = 0"
| "Direction_value RIGHT = 1"
| "Direction_value DOWN = 2"
| "Direction_value LEFT = 3"

text \<open>\<open>Direction(n)\<close>: the member whose value is \<open>n\<close>, ValueError when there is none.\<close>

definition Direction_of :: "nat \<Rightarrow> error + Direction" where
  "Direction_of n =
     (if n = 0 then Inr UP
      else if n = 1 then Inr RIGHT
      else if n = 2 then Inr DOWN
      else if n = 3 then Inr LEFT
      else Inl ValueError)"

text \<open>Iterating the enum (\<open>for direction in Direction\<close>) follows the order of definition.\<close>

definition all_directions :: "Direction list" where
  "all_directions = [UP, RIGHT, DOWN, LEFT]"

fun ROTATIONS :: "TileType \<Rightarrow> nat" where
  "ROTATIONS STRAIGHT = 2"
| "ROTATIONS ELBOW = 4"
| "ROTATIONS T_JUNCTION = 4"
| "ROTATIONS CROSS = 1"
| "ROTATIONS POWER_SOURCE = 4"
| "ROTATIONS LIGHT_BULB = 4"
| "ROTATIONS EMPTY = 1"

definition POWER_SOURCE_CONNECTIONS :: "Direction list list" where
  "POWER_SOURCE_CONNECTIONS =
     [[RIGHT],
      [DOWN],
      [LEFT],
      [UP],
      [RIGHT, DOWN],
      [DOWN, LEFT],
      [LEFT, UP],
      [UP, RIGHT],
      [RIGHT, DOWN, LEFT],
      [UP, DOWN, LEFT],
      [UP, RIGHT, LEFT],
      [UP, RIGHT, DOWN],
      [UP, RIGHT, DOWN, LEFT]]"

fun CONNECTION_MAPS :: "TileType \<Rightarrow> Direction list list" where
  "CONNECTION_MAPS EMPTY = [[]]"
| "CONNECTION_MAPS STRAIGHT = [[UP, DOWN], [LEFT, RIGHT]]"
| "CONNECTION_MAPS ELBOW = [[DOWN, RIGHT], [LEFT, DOWN], [UP, LEFT], [UP, RIGHT]]"
| "CONNECTION_MAPS T_JUNCTION =
     [[LEFT, RIGHT, DOWN], [UP, DOWN, LEFT], [LEFT, RIGHT, UP], [UP, DOWN, RIGHT]]"
| "CONNECTION_MAPS CROSS = [[UP, RIGHT, DOWN, LEFT]]"
| "CONNECTION_MAPS POWER_SOURCE = [[RIGHT], [DOWN], [LEFT], [UP]]"
| "CONNECTION_MAPS LIGHT_BULB = [[UP], [RIGHT], [DOWN], [LEFT]]"

section \<open>Python primitives\<close>

text \<open>\<open>xs[i]\<close> for an index that is never negative in the program (a rotation or a
  pattern number): IndexError past the end.\<close>

definition list_index :: "'a list \<Rightarrow> nat \<Rightarrow> error + 'a" where
  "list_index xs i = (if i < length xs then Inr (xs ! i) else Inl IndexError)"

text \<open>The position \<open>xs[i]\<close> denotes for an integer index: a negative index counts from
  the end, everything else outside the list raises IndexError.\<close>

definition py_position :: "nat \<Rightarrow> int \<Rightarrow> error + nat" where
  "py_position n i =
     (let j = (if i < 0 then int n + i else i)
      in if 0 \<le> j \<and> j < int n then Inr (nat j) else Inl IndexError)"

definition py_get :: "'a list \<Rightarrow> int \<Rightarrow> error + 'a" where
  "py_get xs i =
     (case py_position (length xs) i of Inl e \<Rightarrow> Inl e | Inr j \<Rightarrow> Inr (xs ! j))"

definition py_set :: "'a list \<Rightarrow> int \<Rightarrow> 'a \<Rightarrow> error + 'a list" where
  "py_set xs i v =
     (case py_position (length xs) i of Inl e \<Rightarrow> Inl e | Inr j \<Rightarrow> Inr (xs[j := v]))"

text \<open>\<open>random.randint(a, b)\<close> returns some integer between \<open>a\<close> and \<open>b\<close>, both
  included. The draw is an explicit argument \<open>e\<close> supplied by the caller; every value of
  the range arises from some \<open>e\<close>. Each call site has \<open>a \<le> b\<close>: the bounds are
  constants, or \<open>0\<close> and a cardinality of \<open>ROTATIONS\<close> minus one.\<close>

definition randint :: "nat \<Rightarrow> nat \<Rightarrow> nat \<Rightarrow> nat" where
  "randint a b e = a + e mod (b - a + 1)"

section \<open>Tile\<close>

text \<open>The fields \<open>rotation\<close> and \<open>power_connection_pattern\<close> are natural numbers:
  every assignment in the source stores a constant, a loop index, a \<open>randint\<close> with
  lower bound 0, or a remainder by the positive \<open>max_rotation\<close>.\<close>

record Tile =
  tile_type :: TileType
  max_rotation :: nat
  rotation :: nat
  is_powered :: bool
  used_in_solution :: bool
  power_connection_pattern :: "nat option"

text \<open>\<open>Tile.__init__(tile_type, rotation)\<close>; \<open>e\<close> is the draw consumed by
  \<open>random.randint(0, 12)\<close> when the tile is a power source.\<close>

definition Tile_init :: "TileType \<Rightarrow> int \<Rightarrow> nat \<Rightarrow> Tile" where
  "Tile_init tt rot e =
     \<lparr> tile_type = tt,
       max_rotation = ROTATIONS tt,
       rotation = nat (rot mod int (ROTATIONS tt)),
       is_powered = (tt = POWER_SOURCE),
       used_in_solution = False,
       power_connection_pattern = (if tt = POWER_SOURCE then Some (randint 0 12 e) else None) \<rparr>"

text \<open>\<open>Tile.rotate\<close>: the returned flag and the tile after the call.\<close>

definition rotate_tile :: "Tile \<Rightarrow> bool \<times> Tile" where
  "rotate_tile t =
     (if max_rotation t > 1
      then (True, t\<lparr>rotation := (rotation t + 1) mod max_rotation t\<rparr>)
      else (False, t))"

text \<open>The list comprehension of \<open>get_connections\<close>, stopping at the first exception.\<close>

fun rotate_directions :: "nat \<Rightarrow> Direction list \<Rightarrow> error + Direction list" where
  "rotate_directions r [] = Inr []"
| "rotate_directions r (d # ds) =
     (case Direction_of ((Direction_value d + r) mod 4) of
        Inl e \<Rightarrow> Inl e
      | Inr d' \<Rightarrow>
          (case rotate_directions r ds of Inl e \<Rightarrow> Inl e | Inr ds' \<Rightarrow> Inr (d' # ds')))"

definition get_connections :: "Tile \<Rightarrow> error + Direction list" where
  "get_connections t =
     (case (if tile_type t = POWER_SOURCE then power_connection_pattern t else None) of
        Some p \<Rightarrow>
          (case list_index POWER_SOURCE_CONNECTIONS p of
             Inl e \<Rightarrow> Inl e
           | Inr base_directions \<Rightarrow> rotate_directions (rotation t) base_directions)
      | None \<Rightarrow> list_index (CONNECTION_MAPS (tile_type t)) (rotation t))"

definition is_connected_to :: "Tile \<Rightarrow> Direction \<Rightarrow> error + bool" where
  "is_connected_to t direction =
     (case get_connections t of Inl e \<Rightarrow> Inl e | Inr cs \<Rightarrow> Inr (direction \<in> set cs))"

text \<open>\<open>rotate()\<close> called \<open>n\<close> times in a row.\<close>

fun rotate_times :: "nat \<Rightarrow> Tile \<Rightarrow> Tile" where
  "rotate_times 0 t = t"
| "rotate_times (Suc n) t = rotate_times n (snd (rotate_tile t))"

section \<open>PuzzleGame\<close>

text \<open>The fields of the game that the puzzle logic reads and writes; the display surface
  and the font belong to the rendering.\<close>

record PuzzleGame =
  width :: nat
  height :: nat
  grid :: "Tile list list"
  power_sources :: "(int \<times> int) list"
  bulbs :: "(int \<times> int) list"
  is_solved :: bool

definition is_valid_position :: "PuzzleGame \<Rightarrow> int \<Rightarrow> int \<Rightarrow> bool" where
  "is_valid_position g x y = (0 \<le> x \<and> x < int (width g) \<and> 0 \<le> y \<and> y < int (height g))"

fun get_neighbor_position :: "int \<Rightarrow> int \<Rightarrow> Direction \<Rightarrow> int \<times> int" where
  "get_neighbor_position x y UP = (x, y - 1)"
| "get_neighbor_position x y RIGHT = (x + 1, y)"
| "get_neighbor_position x y DOWN = (x, y + 1)"
| "get_neighbor_position x y LEFT = (x - 1, y)"

fun get_opposite_direction :: "Direction \<Rightarrow> Direction" where
  "get_opposite_direction UP = DOWN"
| "get_opposite_direction RIGHT = LEFT"
| "get_opposite_direction DOWN = UP"
| "get_opposite_direction LEFT = RIGHT"

text \<open>\<open>self.grid[y][x]\<close> as an expression.\<close>

definition grid_at :: "PuzzleGame \<Rightarrow> int \<Rightarrow> int \<Rightarrow> error + Tile" where
  "grid_at g x y =
     (case py_get (grid g) y of Inl e \<Rightarrow> Inl e | Inr row \<Rightarrow> py_get row x)"

text \<open>The grid after the tile object at \<open>self.grid[y][x]\<close> has been replaced or mutated
  in place. Every cell holds an object of its own, so no other cell changes.\<close>

definition set_tile :: "PuzzleGame \<Rightarrow> int \<Rightarrow> int \<Rightarrow> Tile \<Rightarrow> error + PuzzleGame" where
  "set_tile g x y t =
     (case py_get (grid g) y of
        Inl e \<Rightarrow> Inl e
      | Inr row \<Rightarrow>
          (case py_set row x t of
             Inl e \<Rightarrow> Inl e
           | Inr row' \<Rightarrow>
               (case py_set (grid g) y row' of
                  Inl e \<Rightarrow> Inl e
                | Inr rows \<Rightarrow> Inr (g\<lparr>grid := rows\<rparr>))))"

text \<open>The cells in the order of \<open>for y in range(height): for x in range(width)\<close>.\<close>

definition all_positions :: "PuzzleGame \<Rightarrow> (int \<times> int) list" where
  "all_positions g =
     concat (map (\<lambda>y. map (\<lambda>x. (int x, int y)) [0..<width g]) [0..<height g])"

section \<open>Power-flow solver\<close>

text \<open>The body of the reset loop at the head of \<open>update_power_flow\<close>.\<close>

definition reset_tile :: "Tile \<Rightarrow> Tile" where
  "reset_tile t =
     (if tile_type t \<noteq> POWER_SOURCE then t\<lparr>is_powered := False\<rparr> else t)
       \<lparr>used_in_solution := False\<rparr>"

fun reset_flags :: "PuzzleGame \<Rightarrow> (int \<times> int) list \<Rightarrow> error + PuzzleGame" where
  "reset_flags g [] = Inr g"
| "reset_flags g ((x, y) # ps) =
     (case grid_at g x y of
        Inl e \<Rightarrow> Inl e
      | Inr t \<Rightarrow>
          (case set_tile g x y (reset_tile t) of
             Inl e \<Rightarrow> Inl e
           | Inr g' \<Rightarrow> reset_flags g' ps))"

text \<open>What the loop over a popped cell does to its tile.\<close>

definition mark_tile :: "Tile \<Rightarrow> Tile" where
  "mark_tile t = t\<lparr>is_powered := True, used_in_solution := True\<rparr>"

text \<open>The loop \<open>for direction in current_tile.get_connections()\<close> of the traversal, on
  the queue and the visited set.\<close>

fun visit_directions ::
  "PuzzleGame \<Rightarrow> int \<Rightarrow> int \<Rightarrow> Direction list \<Rightarrow> (int \<times> int) list \<times> (int \<times> int) set
     \<Rightarrow> error + ((int \<times> int) list \<times> (int \<times> int) set)" where
  "visit_directions g x y [] (queue, visited) = Inr (queue, visited)"
| "visit_directions g x y (direction # ds) (queue, visited) =
     (case get_neighbor_position x y direction of
        (nx, ny) \<Rightarrow>
          if \<not> is_valid_position g nx ny \<or> (nx, ny) \<in> visited
          then visit_directions g x y ds (queue, visited)
          else
            (case grid_at g nx ny of
               Inl e \<Rightarrow> Inl e
             | Inr neighbor_tile \<Rightarrow>
                 (case is_connected_to neighbor_tile (get_opposite_direction direction) of
                    Inl e \<Rightarrow> Inl e
                  | Inr c \<Rightarrow>
                      if c
                      then visit_directions g x y ds (queue @ [(nx, ny)], insert (nx, ny) visited)
                      else visit_directions g x y ds (queue, visited))))"

text \<open>All cells that \<open>is_valid_position\<close> accepts.\<close>

definition valid_positions :: "PuzzleGame \<Rightarrow> (int \<times> int) set" where
  "valid_positions g = {(x, y). is_valid_position g x y}"

lemma set_tile_width_height:
  "set_tile g x y t = Inr g' \<Longrightarrow> width g' = width g \<and> height g' = height g"
  by (auto simp: set_tile_def split: sum.splits)

lemma finite_valid_positions: "finite (valid_positions g)"
proof -
  have "valid_positions g \<subseteq> {0..<int (width g)} \<times> {0..<int (height g)}"
    by (auto simp: valid_positions_def is_valid_position_def)
  then show ?thesis by (rule finite_subset) simp
qed

lemma visit_directions_measure:
  "visit_directions g x y ds (q, vis) = Inr (q', vis') \<Longrightarrow>
   card (valid_positions g - vis') + length q' = card (valid_positions g - vis) + length q"
proof (induction ds arbitrary: q vis)
  case Nil
  then show ?case by simp
next
  case (Cons d ds)
  obtain nx ny where n: "get_neighbor_position x y d = (nx, ny)" by (cases "get_neighbor_position x y d")
  show ?case
  proof (cases "\<not> is_valid_position g nx ny \<or> (nx, ny) \<in> vis")
    case True
    with Cons n show ?thesis by auto
  next
    case False
    then have v: "(nx, ny) \<in> valid_positions g - vis" by (simp add: valid_positions_def)
    have fin: "finite (valid_positions g - vis)" using finite_valid_positions by simp
    have eq: "valid_positions g - insert (nx, ny) vis = (valid_positions g - vis) - {(nx, ny)}" by auto
    have c: "card (valid_positions g - insert (nx, ny) vis) + 1 = card (valid_positions g - vis)"
      unfolding eq using v fin by (metis Suc_eq_plus1 card_Suc_Diff1)
    from Cons.prems n False obtain nt c' where
      nt: "grid_at g nx ny = Inr nt" and cc: "is_connected_to nt (get_opposite_direction d) = Inr c'"
      and rest: "(if c' then visit_directions g x y ds (q @ [(nx, ny)], insert (nx, ny) vis)
                 else visit_directions g x y ds (q, vis)) = Inr (q', vis')"
      by (auto split: sum.splits)
    show ?thesis
    proof (cases c')
      case True
      with rest have "visit_directions g x y ds (q @ [(nx, ny)], insert (nx, ny) vis) = Inr (q', vis')" by simp
      from Cons.IH[OF this] c show ?thesis by simp
    next
      case False
      with rest Cons.IH show ?thesis by simp
    qed
  qed
qed

function bfs_while ::
  "PuzzleGame \<Rightarrow> (int \<times> int) list \<Rightarrow> (int \<times> int) set \<Rightarrow> error + (PuzzleGame \<times> (int \<times> int) set)" where
  "bfs_while g [] visited = Inr (g, visited)"
| "bfs_while g ((x, y) # queue) visited =
     (case grid_at g x y of
        Inl e \<Rightarrow> Inl e
      | Inr current_tile \<Rightarrow>
          (case set_tile g x y (mark_tile current_tile) of
             Inl e \<Rightarrow> Inl e
           | Inr g' \<Rightarrow>
               (case get_connections (mark_tile current_tile) of
                  Inl e \<Rightarrow> Inl e
                | Inr cs \<Rightarrow>
                    (case visit_directions g' x y cs (queue, visited) of
                       Inl e \<Rightarrow> Inl e
                     | Inr (queue', visited') \<Rightarrow> bfs_while g' queue' visited'))))"
  by pat_completeness auto
termination
proof (relation "measure (\<lambda>(g, queue, visited). card (valid_positions g - visited) + length queue)")
  show "wf (measure (\<lambda>(g, queue, visited). card (valid_positions g - visited) + length queue))" by simp
next
  fix g :: PuzzleGame and x y queue visited current_tile g' cs xa queue' visited'
  assume st: "set_tile g x y (mark_tile current_tile) = Inr g'"
    and vd: "visit_directions g' x y cs (queue, visited) = Inr xa"
    and xa: "(queue', visited') = xa"
  have vp: "valid_positions g' = valid_positions g"
    using set_tile_width_height[OF st] by (simp add: valid_positions_def is_valid_position_def)
  from vd xa have "visit_directions g' x y cs (queue, visited) = Inr (queue', visited')" by simp
  from visit_directions_measure[OF this] vp
  show "((g', queue', visited'), (g, (x, y) # queue, visited))
        \<in> measure (\<lambda>(g, queue, visited). card (valid_positions g - visited) + length queue)"
    by simp
qed

text \<open>The loop over \<open>self.power_sources\<close>: one traversal per source, on a shared
  visited set.\<close>

fun propagate_sources ::
  "PuzzleGame \<Rightarrow> (int \<times> int) list \<Rightarrow> (int \<times> int) set
     \<Rightarrow> error + (PuzzleGame \<times> (int \<times> int) set)" where
  "propagate_sources g [] visited = Inr (g, visited)"
| "propagate_sources g ((source_x, source_y) # rest) visited =
     (case bfs_while g [(source_x, source_y)] (insert (source_x, source_y) visited) of
        Inl e \<Rightarrow> Inl e
      | Inr (g', visited') \<Rightarrow> propagate_sources g' rest visited')"

text \<open>\<open>all(self.grid[y][x].is_powered for x, y in self.bulbs)\<close>; \<open>all\<close> stops at the
  first false element.\<close>

fun all_bulbs_lit :: "PuzzleGame \<Rightarrow> (int \<times> int) list \<Rightarrow> error + bool" where
  "all_bulbs_lit g [] = Inr True"
| "all_bulbs_lit g ((x, y) # rest) =
     (case grid_at g x y of
        Inl e \<Rightarrow> Inl e
      | Inr t \<Rightarrow> if is_powered t then all_bulbs_lit g rest else Inr False)"

fun all_pipes_used :: "PuzzleGame \<Rightarrow> (int \<times> int) list \<Rightarrow> error + bool" where
  "all_pipes_used g [] = Inr True"
| "all_pipes_used g ((x, y) # rest) =
     (case grid_at g x y of
        Inl e \<Rightarrow> Inl e
      | Inr t \<Rightarrow>
          if used_in_solution t \<or> tile_type t = EMPTY then all_pipes_used g rest
          else Inr False)"

text \<open>The loop over the directions of one powered tile in \<open>check_no_leaks\<close>; the result
  \<open>False\<close> is the early \<open>return False\<close>.\<close>

fun check_directions :: "PuzzleGame \<Rightarrow> int \<Rightarrow> int \<Rightarrow> Direction list \<Rightarrow> error + bool" where
  "check_directions g x y [] = Inr True"
| "check_directions g x y (direction # ds) =
     (case get_neighbor_position x y direction of
        (nx, ny) \<Rightarrow>
          if \<not> is_valid_position g nx ny then Inr False
          else
            (case grid_at g nx ny of
               Inl e \<Rightarrow> Inl e
             | Inr neighbor \<Rightarrow>
                 if tile_type neighbor = EMPTY then Inr False
                 else
                   (case is_connected_to neighbor (get_opposite_direction direction) of
                      Inl e \<Rightarrow> Inl e
                    | Inr c \<Rightarrow> if \<not> c then Inr False else check_directions g x y ds)))"

fun check_cells :: "PuzzleGame \<Rightarrow> (int \<times> int) list \<Rightarrow> error + bool" where
  "check_cells g [] = Inr True"
| "check_cells g ((x, y) # rest) =
     (case grid_at g x y of
        Inl e \<Rightarrow> Inl e
      | Inr tile \<Rightarrow>
          if is_powered tile
          then
            (case get_connections tile of
               Inl e \<Rightarrow> Inl e
             | Inr cs \<Rightarrow>
                 (case check_directions g x y cs of
                    Inl e \<Rightarrow> Inl e
                  | Inr ok \<Rightarrow> if ok then check_cells g rest else Inr False))
          else check_cells g rest)"

definition check_no_leaks :: "PuzzleGame \<Rightarrow> error + bool" where
  "check_no_leaks g = check_cells g (all_positions g)"

text \<open>\<open>update_power_flow\<close>: the returned value and the game after the call.\<close>

definition update_power_flow :: "PuzzleGame \<Rightarrow> error + (bool \<times> PuzzleGame)" where
  "update_power_flow g =
     (case reset_flags g (all_positions g) of
        Inl e \<Rightarrow> Inl e
      | Inr g1 \<Rightarrow>
          (case propagate_sources g1 (power_sources g1) {} of
             Inl e \<Rightarrow> Inl e
           | Inr (g2, visited) \<Rightarrow>
               (case all_bulbs_lit g2 (bulbs g2) of
                  Inl e \<Rightarrow> Inl e
                | Inr lit \<Rightarrow>
                    (case all_pipes_used g2 (all_positions g2) of
                       Inl e \<Rightarrow> Inl e
                     | Inr used \<Rightarrow>
                         (case check_no_leaks g2 of
                            Inl e \<Rightarrow> Inl e
                          | Inr no_leaks \<Rightarrow>
                              Inr (lit \<and> used \<and> no_leaks,
                                   g2\<lparr>is_solved := (lit \<and> used \<and> no_leaks)\<rparr>))))))"

section \<open>Connectivity finalizer\<close>

text \<open>The loop \<open>for direction in Direction\<close> of \<open>fix_pipe_connections\<close> that collects
  \<open>neighbors\<close>.\<close>

fun collect_neighbors :: "PuzzleGame \<Rightarrow> int \<Rightarrow> int \<Rightarrow> Direction list \<Rightarrow> error + Direction list" where
  "collect_neighbors g x y [] = Inr []"
| "collect_neighbors g x y (direction # ds) =
     (case get_neighbor_position x y direction of
        (nx, ny) \<Rightarrow>
          if is_valid_position g nx ny
          then
            (case grid_at g nx ny of
               Inl e \<Rightarrow> Inl e
             | Inr neighbor \<Rightarrow>
                 if tile_type neighbor \<noteq> EMPTY
                 then
                   (case is_connected_to neighbor (get_opposite_direction direction) of
                      Inl e \<Rightarrow> Inl e
                    | Inr c \<Rightarrow>
                        (case collect_neighbors g x y ds of
                           Inl e \<Rightarrow> Inl e
                         | Inr ns \<Rightarrow> Inr (if c then direction # ns else ns)))
                 else collect_neighbors g x y ds)
          else collect_neighbors g x y ds)"

text \<open>The rewriting of the tile from the collected \<open>neighbors\<close> (the branches after the
  loop). An \<open>if\<close>/\<open>elif\<close> chain without a final \<open>else\<close> leaves the rotation as it was
  when no branch applies.\<close>

definition fix_tile :: "Tile \<Rightarrow> Direction list \<Rightarrow> Tile" where
  "fix_tile tile neighbors =
     (if neighbors = [] then tile\<lparr>tile_type := EMPTY\<rparr>
      else if length neighbors = 1 then
        tile\<lparr>tile_type := LIGHT_BULB, max_rotation := ROTATIONS LIGHT_BULB,
             rotation :=
               (if neighbors ! 0 = UP then 0
                else if neighbors ! 0 = RIGHT then 1
                else if neighbors ! 0 = DOWN then 2
                else if neighbors ! 0 = LEFT then 3
                else rotation tile)\<rparr>
      else if length neighbors = 2 then
        (if (UP \<in> set neighbors \<and> DOWN \<in> set neighbors)
            \<or> (LEFT \<in> set neighbors \<and> RIGHT \<in> set neighbors)
         then tile\<lparr>tile_type := STRAIGHT, max_rotation := ROTATIONS STRAIGHT,
                   rotation := (if UP \<in> set neighbors then 0 else 1)\<rparr>
         else tile\<lparr>tile_type := ELBOW, max_rotation := ROTATIONS ELBOW,
                   rotation :=
                     (if DOWN \<in> set neighbors \<and> RIGHT \<in> set neighbors then 0
                      else if LEFT \<in> set neighbors \<and> DOWN \<in> set neighbors then 1
                      else if UP \<in> set neighbors \<and> LEFT \<in> set neighbors then 2
                      else if UP \<in> set neighbors \<and> RIGHT \<in> set neighbors then 3
                      else rotation tile)\<rparr>)
      else if length neighbors = 3 then
        tile\<lparr>tile_type := T_JUNCTION, max_rotation := ROTATIONS T_JUNCTION,
             rotation :=
               (if LEFT \<in> set neighbors \<and> RIGHT \<in> set neighbors \<and> DOWN \<in> set neighbors then 0
                else if UP \<in> set neighbors \<and> DOWN \<in> set neighbors \<and> LEFT \<in> set neighbors then 1
                else if LEFT \<in> set neighbors \<and> RIGHT \<in> set neighbors \<and> UP \<in> set neighbors then 2
                else if UP \<in> set neighbors \<and> DOWN \<in> set neighbors \<and> RIGHT \<in> set neighbors then 3
                else rotation tile)\<rparr>
      else tile\<lparr>tile_type := CROSS, max_rotation := ROTATIONS CROSS, rotation := 0\<rparr>)"

definition fix_pipe_connections :: "PuzzleGame \<Rightarrow> int \<Rightarrow> int \<Rightarrow> error + PuzzleGame" where
  "fix_pipe_connections g x y =
     (case grid_at g x y of
        Inl e \<Rightarrow> Inl e
      | Inr tile \<Rightarrow>
          (case collect_neighbors g x y all_directions of
             Inl e \<Rightarrow> Inl e
           | Inr neighbors \<Rightarrow> set_tile g x y (fix_tile tile neighbors)))"

fun finalize_cells :: "PuzzleGame \<Rightarrow> (int \<times> int) list \<Rightarrow> error + PuzzleGame" where
  "finalize_cells g [] = Inr g"
| "finalize_cells g ((x, y) # rest) =
     (case grid_at g x y of
        Inl e \<Rightarrow> Inl e
      | Inr t \<Rightarrow>
          if tile_type t \<notin> {POWER_SOURCE, LIGHT_BULB, EMPTY}
          then
            (case fix_pipe_connections g x y of
               Inl e \<Rightarrow> Inl e
             | Inr g' \<Rightarrow> finalize_cells g' rest)
          else finalize_cells g rest)"

definition finalize_puzzle :: "PuzzleGame \<Rightarrow> error + PuzzleGame" where
  "finalize_puzzle g = finalize_cells g (all_positions g)"

text \<open>\<open>randomize_rotations\<close>; \<open>draw\<close> gives the draw consumed at each cell.\<close>

fun randomize_cells ::
  "(int \<times> int \<Rightarrow> nat) \<Rightarrow> PuzzleGame \<Rightarrow> (int \<times> int) list \<Rightarrow> error + PuzzleGame" where
  "randomize_cells draw g [] = Inr g"
| "randomize_cells draw g ((x, y) # rest) =
     (case grid_at g x y of
        Inl e \<Rightarrow> Inl e
      | Inr tile \<Rightarrow>
          if tile_type tile \<notin> {EMPTY, POWER_SOURCE}
          then
            (case set_tile g x y
                    (tile\<lparr>max_rotation := ROTATIONS (tile_type tile),
                          rotation := randint 0 (ROTATIONS (tile_type tile) - 1) (draw (x, y))\<rparr>) of
               Inl e \<Rightarrow> Inl e
             | Inr g' \<Rightarrow> randomize_cells draw g' rest)
          else randomize_cells draw g rest)"

definition randomize_rotations :: "(int \<times> int \<Rightarrow> nat) \<Rightarrow> PuzzleGame \<Rightarrow> error + PuzzleGame" where
  "randomize_rotations draw g = randomize_cells draw g (all_positions g)"

section \<open>Interaction handler\<close>

definition TILE_SIZE :: int where
  "TILE_SIZE = 60"

text \<open>\<open>handle_click\<close> has no \<open>return\<close> with a value: a call yields the game after it, or
  the exception.\<close>

definition handle_click :: "PuzzleGame \<Rightarrow> int \<times> int \<Rightarrow> error + PuzzleGame" where
  "handle_click g pos =
     (let x = fst pos div TILE_SIZE; y = snd pos div TILE_SIZE
      in if \<not> is_valid_position g x y then Inr g
         else
           (case grid_at g x y of
              Inl e \<Rightarrow> Inl e
            | Inr t \<Rightarrow>
                (case set_tile g x y (snd (rotate_tile t)) of
                   Inl e \<Rightarrow> Inl e
                 | Inr g' \<Rightarrow>
                     if fst (rotate_tile t)
                     then
                       (case update_power_flow g' of
                          Inl e \<Rightarrow> Inl e
                        | Inr (solved, g'') \<Rightarrow> Inr g'')
                     else Inr g')))"

section \<open>Generator: placing the power sources\<close>

definition num_sources :: "int \<Rightarrow> int" where
  "num_sources difficulty = 1 + difficulty div 2"

definition num_bulbs :: "int \<Rightarrow> int" where
  "num_bulbs difficulty = 4 + difficulty * 10"

text \<open>The choice of \<open>source_type\<close> from \<open>connections_count\<close>; \<open>e\<close> is the draw of the
  inner \<open>randint\<close>.\<close>

definition choose_source_type :: "nat \<Rightarrow> nat \<Rightarrow> nat" where
  "choose_source_type connections_count e =
     (if connections_count = 1 then randint 0 3 e
      else if connections_count = 2 then randint 4 7 e
      else if connections_count = 3 then randint 8 11 e
      else 12)"

text \<open>The loop \<open>for i in range(num_sources)\<close> of \<open>generate_puzzle\<close>. \<open>draws i\<close> holds the
  three draws of iteration \<open>i\<close>: for \<open>connections_count\<close>, for \<open>source_type\<close>, and for
  the pattern the constructor picks before it is overwritten. The result is the rest of
  \<open>available_positions\<close> and the game.\<close>

fun place_sources ::
  "(nat \<Rightarrow> nat \<times> nat \<times> nat) \<Rightarrow> nat list \<Rightarrow> (int \<times> int) list \<Rightarrow> PuzzleGame
     \<Rightarrow> error + ((int \<times> int) list \<times> PuzzleGame)" where
  "place_sources draws [] available_positions g = Inr (available_positions, g)"
| "place_sources draws (i # is) [] g = Inr ([], g)"
| "place_sources draws (i # is) ((x, y) # available_positions) g =
     (case draws i of
        (e1, e2, e3) \<Rightarrow>
          (case set_tile g x y
                  ((Tile_init POWER_SOURCE 0 e3)
                     \<lparr>power_connection_pattern :=
                        Some (choose_source_type (randint 1 4 e1) e2)\<rparr>) of
             Inl e \<Rightarrow> Inl e
           | Inr g' \<Rightarrow>
               place_sources draws is available_positions
                 (g'\<lparr>power_sources := power_sources g' @ [(x, y)]\<rparr>)))"

text \<open>\<open>generate_puzzle\<close> up to the end of the source placement. \<open>shuffled\<close> is
  \<open>available_positions\<close> as \<open>random.shuffle\<close> left it.\<close>

definition generate_puzzle_sources ::
  "PuzzleGame \<Rightarrow> int \<Rightarrow> (int \<times> int) list \<Rightarrow> (nat \<Rightarrow> nat \<times> nat \<times> nat)
     \<Rightarrow> error + ((int \<times> int) list \<times> PuzzleGame)" where
  "generate_puzzle_sources g difficulty shuffled draws =
     place_sources draws [0..<nat (num_sources difficulty)] shuffled
       (g\<lparr>grid := replicate (height g) (replicate (width g) (Tile_init EMPTY 0 0)),
          bulbs := [], power_sources := []\<rparr>)"

section \<open>Tiles: connections and rotation\<close>

lemma Direction_of_mod4:
  "\<exists>d. Direction_of (n mod 4) = Inr d \<and> Direction_value d = n mod 4"
proof -
  have "n mod 4 = 0 \<or> n mod 4 = 1 \<or> n mod 4 = 2 \<or> n mod 4 = 3" by arith
  then show ?thesis by (auto simp: Direction_of_def)
qed

lemma rotate_directions_values:
  "\<exists>cs. rotate_directions r ds = Inr cs \<and> length cs = length ds \<and>
        (\<forall>i<length ds. Direction_value (cs ! i) = (Direction_value (ds ! i) + r) mod 4)"
proof (induction ds)
  case Nil
  then show ?case by simp
next
  case (Cons d ds)
  obtain d' where d': "Direction_of ((Direction_value d + r) mod 4) = Inr d'"
    "Direction_value d' = (Direction_value d + r) mod 4"
    using Direction_of_mod4 by blast
  from Cons obtain cs where cs: "rotate_directions r ds = Inr cs" "length cs = length ds"
    "\<forall>i<length ds. Direction_value (cs ! i) = (Direction_value (ds ! i) + r) mod 4"
    by blast
  have "\<forall>i<length (d # ds). Direction_value ((d' # cs) ! i) = (Direction_value ((d # ds) ! i) + r) mod 4"
    using d'(2) cs(3) by (auto simp: nth_Cons split: nat.splits)
  with d'(1) cs(1,2) show ?case by simp
qed

lemma length_CONNECTION_MAPS: "length (CONNECTION_MAPS tt) = ROTATIONS tt"
  by (cases tt) simp_all

lemma length_POWER_SOURCE_CONNECTIONS: "length POWER_SOURCE_CONNECTIONS = 13"
  by (simp add: POWER_SOURCE_CONNECTIONS_def)

lemma rotate_times_rotation:
  "1 < max_rotation t \<Longrightarrow>
   rotate_times k t = t\<lparr>rotation := (rotation t + k) mod max_rotation t\<rparr> \<or> k = 0"
proof (induction k arbitrary: t)
  case 0
  then show ?case by simp
next
  case (Suc k)
  let ?t' = "t\<lparr>rotation := (rotation t + 1) mod max_rotation t\<rparr>"
  have step: "snd (rotate_tile t) = ?t'" using Suc.prems by (simp add: rotate_tile_def)
  have m: "1 < max_rotation ?t'" using Suc.prems by simp
  show ?case
  proof (cases "k = 0")
    case True
    then show ?thesis using step by simp
  next
    case False
    with Suc.IH[OF m] have "rotate_times k ?t' = ?t'\<lparr>rotation := (rotation ?t' + k) mod max_rotation ?t'\<rparr>"
      by simp
    then show ?thesis using step by (simp add: mod_add_left_eq add.assoc)
  qed
qed

text \<open>C7: a power source with pattern \<open>p\<close> below 13 opens the directions of the base
  pattern, each turned by the rotation as \<open>(d + r) mod 4\<close> on the values Up=0, Right=1,
  Down=2, Left=3; every other variant opens the entry of its table at its rotation; and
  the opposite of a direction is the direction turned by 2.\<close>

theorem get_connections_turns_pattern:
  "(tile_type t = POWER_SOURCE \<and> power_connection_pattern t = Some p \<and> p < 13 \<longrightarrow>
      (\<exists>cs. get_connections t = Inr cs \<and>
            length cs = length (POWER_SOURCE_CONNECTIONS ! p) \<and>
            (\<forall>i<length cs. Direction_value (cs ! i)
                 = (Direction_value (POWER_SOURCE_CONNECTIONS ! p ! i) + rotation t) mod 4)))
   \<and> (tile_type t' \<noteq> POWER_SOURCE \<and> rotation t' < ROTATIONS (tile_type t') \<longrightarrow>
        get_connections t' = Inr (CONNECTION_MAPS (tile_type t') ! rotation t'))
   \<and> Direction_value (get_opposite_direction d) = (Direction_value d + 2) mod 4"
proof (intro conjI impI)
  assume a: "tile_type t = POWER_SOURCE \<and> power_connection_pattern t = Some p \<and> p < 13"
  then have "get_connections t = rotate_directions (rotation t) (POWER_SOURCE_CONNECTIONS ! p)"
    by (simp add: get_connections_def list_index_def length_POWER_SOURCE_CONNECTIONS)
  then show "\<exists>cs. get_connections t = Inr cs \<and>
            length cs = length (POWER_SOURCE_CONNECTIONS ! p) \<and>
            (\<forall>i<length cs. Direction_value (cs ! i)
                 = (Direction_value (POWER_SOURCE_CONNECTIONS ! p ! i) + rotation t) mod 4)"
    using rotate_directions_values[of "rotation t" "POWER_SOURCE_CONNECTIONS ! p"] by auto
next
  assume "tile_type t' \<noteq> POWER_SOURCE \<and> rotation t' < ROTATIONS (tile_type t')"
  then show "get_connections t' = Inr (CONNECTION_MAPS (tile_type t') ! rotation t')"
    by (simp add: get_connections_def list_index_def length_CONNECTION_MAPS)
next
  show "Direction_value (get_opposite_direction d) = (Direction_value d + 2) mod 4"
    by (cases d) simp_all
qed

theorem get_connections_turns_pattern_witness:
  "get_connections \<lparr>tile_type = POWER_SOURCE, max_rotation = 4, rotation = 3, is_powered = True,
      used_in_solution = False, power_connection_pattern = Some 5\<rparr> = Inr [RIGHT, DOWN]
   \<and> get_connections \<lparr>tile_type = ELBOW, max_rotation = 4, rotation = 2, is_powered = False,
      used_in_solution = False, power_connection_pattern = None\<rparr> = Inr [UP, LEFT]
   \<and> Direction_value (get_opposite_direction LEFT) = (3 + 2) mod 4"
  using get_connections_turns_pattern
    [of "\<lparr>tile_type = POWER_SOURCE, max_rotation = 4, rotation = 3, is_powered = True,
          used_in_solution = False, power_connection_pattern = Some 5\<rparr>" 5
        "\<lparr>tile_type = ELBOW, max_rotation = 4, rotation = 2, is_powered = False,
          used_in_solution = False, power_connection_pattern = None\<rparr>" LEFT]
  by (simp add: get_connections_def list_index_def POWER_SOURCE_CONNECTIONS_def Direction_of_def)

text \<open>C6: on a tile whose stored cardinality is that of its variant and whose rotation
  is below it, \<open>rotate()\<close> advances the rotation by one modulo the cardinality and returns
  true when the cardinality exceeds 1, returns false and changes nothing when it is 1, and
  as many calls as the cardinality give back the tile, hence its rotation and its open
  directions.\<close>

theorem rotate_full_cycle:
  assumes "max_rotation t = ROTATIONS (tile_type t)" and "rotation t < max_rotation t"
  shows "(1 < ROTATIONS (tile_type t) \<longrightarrow>
            rotate_tile t = (True, t\<lparr>rotation := (rotation t + 1) mod ROTATIONS (tile_type t)\<rparr>))
       \<and> (ROTATIONS (tile_type t) = 1 \<longrightarrow> rotate_tile t = (False, t))
       \<and> rotation (rotate_times (ROTATIONS (tile_type t)) t) = rotation t
       \<and> get_connections (rotate_times (ROTATIONS (tile_type t)) t) = get_connections t"
proof -
  have full: "rotate_times (ROTATIONS (tile_type t)) t = t"
  proof (cases "1 < max_rotation t")
    case True
    from rotate_times_rotation[OF True, of "max_rotation t"] True assms(2)
    have "rotate_times (max_rotation t) t = t" by auto
    then show ?thesis using assms(1) by simp
  next
    case False
    then have one: "ROTATIONS (tile_type t) = 1" using assms by simp
    have "snd (rotate_tile t) = t" using False by (simp add: rotate_tile_def)
    then show ?thesis using one by simp
  qed
  show ?thesis using assms(1) full by (simp add: rotate_tile_def)
qed

theorem rotate_full_cycle_witness:
  "rotate_tile (Tile_init STRAIGHT 1 0) = (True, (Tile_init STRAIGHT 1 0)\<lparr>rotation := 0\<rparr>)
   \<and> rotation (rotate_times 2 (Tile_init STRAIGHT 1 0)) = 1
   \<and> get_connections (rotate_times 2 (Tile_init STRAIGHT 1 0)) = Inr [LEFT, RIGHT]"
  using rotate_full_cycle[of "Tile_init STRAIGHT 1 0"]
  by (simp add: Tile_init_def get_connections_def list_index_def)

section \<open>Well-formed grids\<close>

text \<open>The grid has \<open>height\<close> rows of \<open>width\<close> tiles, as the constructor and
  \<open>generate_puzzle\<close> build it.\<close>

definition grid_shape :: "PuzzleGame \<Rightarrow> bool" where
  "grid_shape g = (length (grid g) = height g \<and> (\<forall>row\<in>set (grid g). length row = width g))"

text \<open>\<open>get_connections\<close> returns on the tile: its rotation (and pattern) index the
  tables.\<close>

definition connections_defined :: "Tile \<Rightarrow> bool" where
  "connections_defined t = (case get_connections t of Inl e \<Rightarrow> False | Inr cs \<Rightarrow> True)"

definition every_tile :: "(Tile \<Rightarrow> bool) \<Rightarrow> PuzzleGame \<Rightarrow> bool" where
  "every_tile P g = (\<forall>row\<in>set (grid g). \<forall>t\<in>set row. P t)"

text \<open>The tile of a cell and the grid with one cell replaced, for the cells inside a
  grid of the right shape.\<close>

definition tile_of :: "PuzzleGame \<Rightarrow> int \<times> int \<Rightarrow> Tile" where
  "tile_of g p = grid g ! nat (snd p) ! nat (fst p)"

definition put_tile :: "PuzzleGame \<Rightarrow> int \<times> int \<Rightarrow> Tile \<Rightarrow> PuzzleGame" where
  "put_tile g p t =
     g\<lparr>grid := (grid g)[nat (snd p) := (grid g ! nat (snd p))[nat (fst p) := t]]\<rparr>"

lemma py_position_inside: "0 \<le> i \<Longrightarrow> i < int n \<Longrightarrow> py_position n i = Inr (nat i)"
  by (simp add: py_position_def)

lemma valid_row:
  "grid_shape g \<Longrightarrow> is_valid_position g x y \<Longrightarrow>
   nat y < length (grid g) \<and> nat x < length (grid g ! nat y) \<and> 0 \<le> x \<and> 0 \<le> y
   \<and> y < int (length (grid g)) \<and> x < int (length (grid g ! nat y))"
  by (auto simp: grid_shape_def is_valid_position_def)

lemma grid_at_inside:
  "grid_shape g \<Longrightarrow> is_valid_position g x y \<Longrightarrow> grid_at g x y = Inr (tile_of g (x, y))"
  using valid_row[of g x y]
  by (simp add: grid_at_def py_get_def py_position_inside tile_of_def)

lemma set_tile_inside:
  "grid_shape g \<Longrightarrow> is_valid_position g x y \<Longrightarrow> set_tile g x y t = Inr (put_tile g (x, y) t)"
  using valid_row[of g x y]
  by (simp add: set_tile_def py_get_def py_set_def py_position_inside put_tile_def)

lemma put_tile_fields [simp]:
  "width (put_tile g p t) = width g"
  "height (put_tile g p t) = height g"
  "power_sources (put_tile g p t) = power_sources g"
  "bulbs (put_tile g p t) = bulbs g"
  "is_solved (put_tile g p t) = is_solved g"
  by (simp_all add: put_tile_def)

lemma is_valid_position_put_tile [simp]:
  "is_valid_position (put_tile g p t) x y = is_valid_position g x y"
  by (simp add: is_valid_position_def)

lemma all_positions_put_tile [simp]: "all_positions (put_tile g p t) = all_positions g"
  by (simp add: all_positions_def)

lemma put_tile_beyond: "\<not> nat (snd p) < length (grid g) \<Longrightarrow> put_tile g p t = g"
  by (simp add: put_tile_def list_update_beyond not_less)

lemma grid_shape_put_tile [simp]:
  assumes "grid_shape g"
  shows "grid_shape (put_tile g p t)"
proof (cases "nat (snd p) < length (grid g)")
  case True
  then have "grid g ! nat (snd p) \<in> set (grid g)" by simp
  with assms have len: "length ((grid g ! nat (snd p))[nat (fst p) := t]) = width g"
    by (simp add: grid_shape_def)
  have "\<forall>row\<in>set (grid (put_tile g p t)). length row = width g"
  proof
    fix row
    assume "row \<in> set (grid (put_tile g p t))"
    then have "row \<in> insert ((grid g ! nat (snd p))[nat (fst p) := t]) (set (grid g))"
      using set_update_subset_insert by (fastforce simp: put_tile_def)
    with len assms show "length row = width g" by (auto simp: grid_shape_def)
  qed
  with assms show ?thesis by (simp add: grid_shape_def put_tile_def)
next
  case False
  with assms show ?thesis by (simp add: put_tile_beyond)
qed

lemma tile_of_put_tile:
  assumes "grid_shape g" and "is_valid_position g x y" and "is_valid_position g x' y'"
  shows "tile_of (put_tile g (x, y) t) (x', y') = (if (x', y') = (x, y) then t else tile_of g (x', y'))"
proof -
  note v = valid_row[OF assms(1,2)] and v' = valid_row[OF assms(1,3)]
  show ?thesis
  proof (cases "y' = y")
    case True
    then show ?thesis using v v' by (auto simp: tile_of_def put_tile_def nth_list_update)
  next
    case False
    then have "nat y' \<noteq> nat y" using v v' by auto
    then show ?thesis using False by (simp add: tile_of_def put_tile_def)
  qed
qed

lemma put_tile_same:
  "grid_shape g \<Longrightarrow> is_valid_position g x y \<Longrightarrow> put_tile g (x, y) (tile_of g (x, y)) = g"
  by (simp add: put_tile_def tile_of_def)

lemma tile_of_in_grid:
  "grid_shape g \<Longrightarrow> is_valid_position g x y \<Longrightarrow>
   \<exists>row\<in>set (grid g). tile_of g (x, y) \<in> set row"
  using valid_row[of g x y] by (auto simp: tile_of_def intro!: bexI[of _ "grid g ! nat y"])

lemma every_tileD:
  "every_tile P g \<Longrightarrow> grid_shape g \<Longrightarrow> is_valid_position g x y \<Longrightarrow> P (tile_of g (x, y))"
  using tile_of_in_grid[of g x y] by (auto simp: every_tile_def)

lemma every_tile_put_tile:
  assumes "every_tile P g" and "P t"
  shows "every_tile P (put_tile g p t)"
proof (cases "nat (snd p) < length (grid g)")
  case True
  then have old: "grid g ! nat (snd p) \<in> set (grid g)" by simp
  have "P u" if "row \<in> set (grid (put_tile g p t))" and "u \<in> set row" for row u
  proof -
    from that(1) have "row \<in> insert ((grid g ! nat (snd p))[nat (fst p) := t]) (set (grid g))"
      using set_update_subset_insert by (fastforce simp: put_tile_def)
    then show ?thesis
    proof
      assume "row = (grid g ! nat (snd p))[nat (fst p) := t]"
      with that(2) have "u \<in> insert t (set (grid g ! nat (snd p)))"
        using set_update_subset_insert by fastforce
      with assms old show ?thesis by (auto simp: every_tile_def)
    next
      assume "row \<in> set (grid g)"
      with assms(1) that(2) show ?thesis by (auto simp: every_tile_def)
    qed
  qed
  then show ?thesis by (simp add: every_tile_def)
next
  case False
  with assms(1) show ?thesis by (simp add: put_tile_beyond)
qed

lemma all_positions_valid:
  "(x, y) \<in> set (all_positions g) \<longleftrightarrow> is_valid_position g x y"
proof
  assume "(x, y) \<in> set (all_positions g)"
  then show "is_valid_position g x y"
    by (auto simp: all_positions_def is_valid_position_def)
next
  assume v: "is_valid_position g x y"
  then have b: "nat y < height g" "nat x < width g" and eq: "(x, y) = (int (nat x), int (nat y))"
    by (auto simp: is_valid_position_def)
  have "(int (nat x), int (nat y)) \<in> (\<lambda>x'. (int x', int (nat y))) ` set [0..<width g]"
    using b(2) by (intro imageI) simp
  then have "\<exists>y'\<in>set [0..<height g].
      (int (nat x), int (nat y)) \<in> set (map (\<lambda>x'. (int x', int y')) [0..<width g])"
    using b(1) by (intro bexI[of _ "nat y"]) simp_all
  then show "(x, y) \<in> set (all_positions g)"
    unfolding eq all_positions_def by simp
qed

section \<open>The finalizer rewrites a tile to its connecting neighbours\<close>

text \<open>The neighbour of \<open>(x, y)\<close> in a direction is connecting: it is inside the grid, not
  Empty, and open toward the cell.\<close>

definition connecting :: "PuzzleGame \<Rightarrow> int \<Rightarrow> int \<Rightarrow> Direction \<Rightarrow> bool" where
  "connecting g x y d =
     (case get_neighbor_position x y d of
        (nx, ny) \<Rightarrow>
          is_valid_position g nx ny \<and>
          (case grid_at g nx ny of
             Inl e \<Rightarrow> False
           | Inr n \<Rightarrow> tile_type n \<noteq> EMPTY \<and> is_connected_to n (get_opposite_direction d) = Inr True))"

definition connecting_directions :: "PuzzleGame \<Rightarrow> int \<Rightarrow> int \<Rightarrow> Direction list" where
  "connecting_directions g x y = filter (connecting g x y) all_directions"

text \<open>The tile a set of connecting directions asks for: Empty for none; otherwise open
  toward exactly these directions, of the variant that goes with their number, at a
  rotation of that variant.\<close>

definition shaped_for :: "Direction list \<Rightarrow> Tile \<Rightarrow> bool" where
  "shaped_for S t =
     (if S = [] then tile_type t = EMPTY
      else (case get_connections t of Inl e \<Rightarrow> False | Inr cs \<Rightarrow> set cs = set S)
         \<and> rotation t < ROTATIONS (tile_type t)
         \<and> max_rotation t = ROTATIONS (tile_type t)
         \<and> tile_type t =
             (if length S = 1 then LIGHT_BULB
              else if length S = 2 then
                (if set S = {UP, DOWN} \<or> set S = {LEFT, RIGHT} then STRAIGHT else ELBOW)
              else if length S = 3 then T_JUNCTION
              else CROSS)
         \<and> (length S = 4 \<longrightarrow> rotation t = 0))"

text \<open>The scenario of the specification: a source open to the right, a horizontal
  Straight and a bulb facing left, in one row.\<close>

definition example_game :: PuzzleGame where
  "example_game =
     \<lparr> width = 3, height = 1,
       grid = [[(Tile_init POWER_SOURCE 0 0)\<lparr>power_connection_pattern := Some 0\<rparr>,
                Tile_init STRAIGHT 1 0,
                Tile_init LIGHT_BULB 3 0]],
       power_sources = [(0, 0)], bulbs = [(2, 0)], is_solved = False \<rparr>"

lemma is_connected_to_defined:
  "connections_defined t \<Longrightarrow> \<exists>c. is_connected_to t d = Inr c"
  by (auto simp: connections_defined_def is_connected_to_def split: sum.splits)

lemma collect_neighbors_filter:
  assumes "grid_shape g"
    and "every_tile (\<lambda>t. tile_type t \<noteq> EMPTY \<longrightarrow> connections_defined t) g"
  shows "collect_neighbors g x y ds = Inr (filter (connecting g x y) ds)"
proof (induction ds)
  case Nil
  then show ?case by simp
next
  case (Cons d ds)
  obtain nx ny where n: "get_neighbor_position x y d = (nx, ny)"
    by (cases "get_neighbor_position x y d")
  show ?case
  proof (cases "is_valid_position g nx ny")
    case False
    with n Cons show ?thesis by (simp add: connecting_def)
  next
    case True
    note at = grid_at_inside[OF assms(1) True]
    show ?thesis
    proof (cases "tile_type (tile_of g (nx, ny)) = EMPTY")
      case True
      with n \<open>is_valid_position g nx ny\<close> at Cons show ?thesis by (simp add: connecting_def)
    next
      case False
      with every_tileD[OF assms(2,1) True] have "connections_defined (tile_of g (nx, ny))" by simp
      then obtain c where "is_connected_to (tile_of g (nx, ny)) (get_opposite_direction d) = Inr c"
        using is_connected_to_defined by blast
      with n True at False Cons show ?thesis by (simp add: connecting_def)
    qed
  qed
qed

lemma fix_tile_shaped: "shaped_for (filter P all_directions) (fix_tile t (filter P all_directions))"
  by (cases "P UP"; cases "P RIGHT"; cases "P DOWN"; cases "P LEFT")
     (simp_all add: all_directions_def fix_tile_def shaped_for_def get_connections_def list_index_def
        doubleton_eq_iff insert_commute)

text \<open>C4: on a grid of the right shape whose non-Empty tiles have their connections
  defined, \<open>fix_pipe_connections\<close> returns, and the tile it leaves at the cell is shaped
  for the directions of the connecting neighbours: Empty when there are none; otherwise its
  open directions are exactly these, it is a LightBulb for one direction, a Straight or an
  Elbow for two (Straight for an opposite pair), a TJunction for three and a Cross at
  rotation 0 for four.\<close>

theorem fix_pipe_connections_round_trip:
  assumes "grid_shape g" and "is_valid_position g x y"
    and "every_tile (\<lambda>t. tile_type t \<noteq> EMPTY \<longrightarrow> connections_defined t) g"
  shows "\<exists>g' t'. fix_pipe_connections g x y = Inr g' \<and> grid_at g' x y = Inr t'
           \<and> shaped_for (connecting_directions g x y) t'"
proof -
  let ?S = "connecting_directions g x y"
  let ?t' = "fix_tile (tile_of g (x, y)) ?S"
  have run: "fix_pipe_connections g x y = Inr (put_tile g (x, y) ?t')"
    using assms(1,2)
    by (simp add: fix_pipe_connections_def grid_at_inside collect_neighbors_filter[OF assms(1,3)]
        set_tile_inside connecting_directions_def)
  have "grid_at (put_tile g (x, y) ?t') x y = Inr ?t'"
    using assms(1,2) by (simp add: grid_at_inside tile_of_put_tile)
  moreover have "shaped_for ?S ?t'"
    unfolding connecting_directions_def by (rule fix_tile_shaped)
  ultimately show ?thesis using run by blast
qed

lemmas example_eval =
  example_game_def Tile_init_def randint_def is_valid_position_def grid_shape_def every_tile_def
  connections_defined_def get_connections_def list_index_def POWER_SOURCE_CONNECTIONS_def
  Direction_of_def is_connected_to_def grid_at_def set_tile_def py_get_def py_set_def
  py_position_def all_directions_def all_positions_def

lemma example_game_shape: "grid_shape example_game"
  by (simp add: example_eval)

lemma example_game_defined: "every_tile connections_defined example_game"
  by (simp add: example_eval)

theorem fix_pipe_connections_round_trip_witness:
  "\<exists>g' t'. fix_pipe_connections example_game 1 0 = Inr g' \<and> grid_at g' 1 0 = Inr t'
     \<and> shaped_for [RIGHT, LEFT] t'"
proof -
  have v: "is_valid_position example_game 1 0" by (simp add: example_eval)
  have d: "every_tile (\<lambda>t. tile_type t \<noteq> EMPTY \<longrightarrow> connections_defined t) example_game"
    by (simp add: example_eval)
  have S: "connecting_directions example_game 1 0 = [RIGHT, LEFT]"
    by (simp add: connecting_directions_def connecting_def example_eval)
  show ?thesis
    using fix_pipe_connections_round_trip[OF example_game_shape v d] S by simp
qed

section \<open>Leaks\<close>

text \<open>The open directions of a tile whose connections are defined.\<close>

definition open_directions :: "Tile \<Rightarrow> Direction list" where
  "open_directions t = (case get_connections t of Inl e \<Rightarrow> [] | Inr cs \<Rightarrow> cs)"

text \<open>No powered tile of the grid has an open edge that ends at the boundary, at an Empty
  tile or at a neighbour that does not open toward it.\<close>

definition leak_free :: "PuzzleGame \<Rightarrow> bool" where
  "leak_free g =
     (\<forall>(x, y)\<in>set (all_positions g).
        is_powered (tile_of g (x, y)) \<longrightarrow>
        (\<forall>d\<in>set (open_directions (tile_of g (x, y))). connecting g x y d))"

lemma get_connections_open_directions:
  "connections_defined t \<Longrightarrow> get_connections t = Inr (open_directions t)"
  by (auto simp: connections_defined_def open_directions_def split: sum.splits)

lemma is_connected_to_open_directions:
  "connections_defined t \<Longrightarrow> is_connected_to t d = Inr (d \<in> set (open_directions t))"
  by (simp add: is_connected_to_def get_connections_open_directions)

lemma check_directions_connecting:
  assumes "grid_shape g"
    and "every_tile (\<lambda>t. tile_type t \<noteq> EMPTY \<longrightarrow> connections_defined t) g"
  shows "check_directions g x y ds = Inr (\<forall>d\<in>set ds. connecting g x y d)"
proof (induction ds)
  case Nil
  then show ?case by simp
next
  case (Cons d ds)
  obtain nx ny where n: "get_neighbor_position x y d = (nx, ny)"
    by (cases "get_neighbor_position x y d")
  show ?case
  proof (cases "is_valid_position g nx ny")
    case False
    with n show ?thesis by (simp add: connecting_def)
  next
    case True
    note at = grid_at_inside[OF assms(1) True]
    show ?thesis
    proof (cases "tile_type (tile_of g (nx, ny)) = EMPTY")
      case True
      with n \<open>is_valid_position g nx ny\<close> at show ?thesis by (simp add: connecting_def)
    next
      case False
      with every_tileD[OF assms(2,1) True] have "connections_defined (tile_of g (nx, ny))" by simp
      note c = is_connected_to_open_directions[OF this]
      from n True at False Cons c show ?thesis by (simp add: connecting_def)
    qed
  qed
qed

lemma check_cells_leak_free:
  assumes "grid_shape g"
    and "every_tile (\<lambda>t. tile_type t \<noteq> EMPTY \<or> is_powered t \<longrightarrow> connections_defined t) g"
    and "set ps \<subseteq> set (all_positions g)"
  shows "check_cells g ps =
         Inr (\<forall>(x, y)\<in>set ps. is_powered (tile_of g (x, y)) \<longrightarrow>
                (\<forall>d\<in>set (open_directions (tile_of g (x, y))). connecting g x y d))"
  using assms(3)
proof (induction ps)
  case Nil
  then show ?case by simp
next
  case (Cons p ps)
  obtain x y where p: "p = (x, y)" by (cases p)
  with Cons.prems have v: "is_valid_position g x y" by (simp add: all_positions_valid)
  note at = grid_at_inside[OF assms(1) v]
  have weak: "every_tile (\<lambda>t. tile_type t \<noteq> EMPTY \<longrightarrow> connections_defined t) g"
    using assms(2) by (simp add: every_tile_def)
  note dirs = check_directions_connecting[OF assms(1) weak]
  from Cons have IH: "check_cells g ps =
         Inr (\<forall>(x, y)\<in>set ps. is_powered (tile_of g (x, y)) \<longrightarrow>
                (\<forall>d\<in>set (open_directions (tile_of g (x, y))). connecting g x y d))" by simp
  show ?case
  proof (cases "is_powered (tile_of g (x, y))")
    case False
    with p at IH show ?thesis by simp
  next
    case True
    with every_tileD[OF assms(2,1) v] have "connections_defined (tile_of g (x, y))" by simp
    note gc = get_connections_open_directions[OF this]
    from p at True gc dirs IH show ?thesis by simp
  qed
qed

text \<open>C2: on a grid of the right shape where every tile that is powered or not Empty has
  its connections defined, \<open>check_no_leaks\<close> returns, and it returns true exactly when for
  every cell with a powered tile every open direction of the tile points to a neighbour
  inside the grid that is not Empty and opens toward the opposite direction.\<close>

theorem check_no_leaks_iff:
  assumes "grid_shape g"
    and "every_tile (\<lambda>t. tile_type t \<noteq> EMPTY \<or> is_powered t \<longrightarrow> connections_defined t) g"
  shows "\<exists>b. check_no_leaks g = Inr b \<and>
           (b \<longleftrightarrow>
              (\<forall>x y t cs. is_valid_position g x y \<and> grid_at g x y = Inr t \<and> is_powered t
                   \<and> get_connections t = Inr cs \<longrightarrow>
                 (\<forall>d\<in>set cs. connecting g x y d)))"
proof -
  have run: "check_no_leaks g = Inr (leak_free g)"
    unfolding check_no_leaks_def leak_free_def
    by (rule check_cells_leak_free[OF assms]) simp
  have "leak_free g \<longleftrightarrow>
        (\<forall>x y t cs. is_valid_position g x y \<and> grid_at g x y = Inr t \<and> is_powered t
             \<and> get_connections t = Inr cs \<longrightarrow> (\<forall>d\<in>set cs. connecting g x y d))"
    (is "?L \<longleftrightarrow> ?R")
  proof
    assume L: ?L
    show ?R
    proof (intro allI impI)
      fix x y t cs
      assume a: "is_valid_position g x y \<and> grid_at g x y = Inr t \<and> is_powered t
                 \<and> get_connections t = Inr cs"
      then have t: "t = tile_of g (x, y)" using grid_at_inside[OF assms(1), of x y] by simp
      from a have "open_directions t = cs" by (simp add: open_directions_def)
      with L a t show "\<forall>d\<in>set cs. connecting g x y d"
        by (auto simp: leak_free_def all_positions_valid)
    qed
  next
    assume R: ?R
    show ?L
      unfolding leak_free_def
    proof (intro ballI impI, clarify)
      fix x y d
      assume v: "(x, y) \<in> set (all_positions g)" and pw: "is_powered (tile_of g (x, y))"
        and d: "d \<in> set (open_directions (tile_of g (x, y)))"
      from v have v': "is_valid_position g x y" by (simp add: all_positions_valid)
      from every_tileD[OF assms(2,1) v'] pw have "connections_defined (tile_of g (x, y))" by simp
      then have "get_connections (tile_of g (x, y)) = Inr (open_directions (tile_of g (x, y)))"
        by (rule get_connections_open_directions)
      with R v' pw grid_at_inside[OF assms(1) v'] d show "connecting g x y d" by blast
    qed
  qed
  with run show ?thesis by simp
qed

theorem check_no_leaks_iff_witness:
  "check_no_leaks example_game = Inr True \<and> connecting example_game 0 0 RIGHT"
proof -
  have d: "every_tile (\<lambda>t. tile_type t \<noteq> EMPTY \<or> is_powered t \<longrightarrow> connections_defined t)
             example_game"
    by (simp add: example_eval)
  have r: "check_no_leaks example_game = Inr True"
    by code_simp
  have v: "is_valid_position example_game 0 0" by (simp add: example_eval)
  have t: "grid_at example_game 0 0
             = Inr ((Tile_init POWER_SOURCE 0 0)\<lparr>power_connection_pattern := Some 0\<rparr>)"
    by (simp add: example_eval)
  have p: "is_powered ((Tile_init POWER_SOURCE 0 0)\<lparr>power_connection_pattern := Some 0\<rparr>)"
    by (simp add: Tile_init_def)
  have c: "get_connections ((Tile_init POWER_SOURCE 0 0)\<lparr>power_connection_pattern := Some 0\<rparr>)
             = Inr [RIGHT]"
    by (simp add: example_eval)
  from check_no_leaks_iff[OF example_game_shape d] r
  have "\<forall>x y t cs. is_valid_position example_game x y \<and> grid_at example_game x y = Inr t
          \<and> is_powered t \<and> get_connections t = Inr cs \<longrightarrow>
        (\<forall>d\<in>set cs. connecting example_game x y d)"
    by simp
  with v t p c have "\<forall>d\<in>set [RIGHT]. connecting example_game 0 0 d" by blast
  with r show ?thesis by simp
qed

section \<open>Reachability along reciprocal edges\<close>

text \<open>An edge from \<open>p\<close> to \<open>q\<close> is reciprocally open: both cells are inside the grid, the
  tile of \<open>p\<close> lists a direction whose neighbour is \<open>q\<close>, and the tile of \<open>q\<close> lists the
  opposite direction.\<close>

definition linked :: "PuzzleGame \<Rightarrow> int \<times> int \<Rightarrow> int \<times> int \<Rightarrow> bool" where
  "linked g p q =
     (is_valid_position g (fst p) (snd p) \<and> is_valid_position g (fst q) (snd q) \<and>
      (\<exists>d\<in>set (open_directions (tile_of g p)).
          get_neighbor_position (fst p) (snd p) d = q \<and>
          get_opposite_direction d \<in> set (open_directions (tile_of g q))))"

inductive reachable :: "PuzzleGame \<Rightarrow> int \<times> int \<Rightarrow> bool" for g :: PuzzleGame where
  source: "s \<in> set (power_sources g) \<Longrightarrow> reachable g s"
| step: "reachable g p \<Longrightarrow> linked g p q \<Longrightarrow> reachable g q"

text \<open>What the solver expects of a game: a grid of the right shape, tiles whose
  connections are defined, and sources and bulbs inside the grid.\<close>

definition well_formed :: "PuzzleGame \<Rightarrow> bool" where
  "well_formed g =
     (grid_shape g \<and> every_tile connections_defined g \<and>
      (\<forall>(x, y)\<in>set (power_sources g). is_valid_position g x y) \<and>
      (\<forall>(x, y)\<in>set (bulbs g). is_valid_position g x y))"

text \<open>The second tile is the first up to the flags \<open>is_powered\<close> and
  \<open>used_in_solution\<close>.\<close>

definition same_but_flags :: "Tile \<Rightarrow> Tile \<Rightarrow> bool" where
  "same_but_flags t t' =
     (tile_type t' = tile_type t \<and> max_rotation t' = max_rotation t \<and>
      rotation t' = rotation t \<and> power_connection_pattern t' = power_connection_pattern t)"

text \<open>A later state of the game agrees with \<open>g0\<close>: only the two flags of tiles differ.\<close>

definition agrees :: "PuzzleGame \<Rightarrow> PuzzleGame \<Rightarrow> bool" where
  "agrees g0 g =
     (grid_shape g \<and> every_tile connections_defined g \<and>
      width g = width g0 \<and> height g = height g0 \<and>
      power_sources g = power_sources g0 \<and> bulbs g = bulbs g0 \<and> is_solved g = is_solved g0 \<and>
      (\<forall>x y. is_valid_position g0 x y \<longrightarrow>
         same_but_flags (tile_of g0 (x, y)) (tile_of g (x, y)) \<and>
         tile_type (tile_of g (x, y)) = tile_type (tile_of g0 (x, y)) \<and>
         open_directions (tile_of g (x, y)) = open_directions (tile_of g0 (x, y))))"

lemma same_but_flags_simps [simp]:
  "same_but_flags t t"
  "same_but_flags t (mark_tile t)"
  "same_but_flags t (reset_tile t)"
  by (simp_all add: same_but_flags_def mark_tile_def reset_tile_def)

lemma same_but_flags_trans:
  "same_but_flags t u \<Longrightarrow> same_but_flags u v \<Longrightarrow> same_but_flags t v"
  by (simp add: same_but_flags_def)

lemma same_but_flags_eq:
  "same_but_flags t t' \<Longrightarrow>
   t' = t\<lparr>is_powered := is_powered t', used_in_solution := used_in_solution t'\<rparr>"
  by (cases t, cases t') (simp add: same_but_flags_def)

lemma get_connections_flags [simp]:
  "get_connections (t\<lparr>is_powered := a\<rparr>) = get_connections t"
  "get_connections (t\<lparr>used_in_solution := b\<rparr>) = get_connections t"
  by (auto simp: get_connections_def split: option.splits sum.splits)

lemma mark_tile_simps [simp]:
  "get_connections (mark_tile t) = get_connections t"
  "tile_type (mark_tile t) = tile_type t"
  "is_powered (mark_tile t)"
  "used_in_solution (mark_tile t)"
  by (simp_all add: mark_tile_def)

lemma reset_tile_simps [simp]:
  "get_connections (reset_tile t) = get_connections t"
  "tile_type (reset_tile t) = tile_type t"
  "\<not> used_in_solution (reset_tile t)"
  "tile_type t \<noteq> POWER_SOURCE \<Longrightarrow> \<not> is_powered (reset_tile t)"
  "reset_tile (reset_tile t) = reset_tile t"
  by (simp_all add: reset_tile_def)

lemma flags_keep_directions [simp]:
  "open_directions (mark_tile t) = open_directions t"
  "open_directions (reset_tile t) = open_directions t"
  "connections_defined (mark_tile t) = connections_defined t"
  "connections_defined (reset_tile t) = connections_defined t"
  by (simp_all add: open_directions_def connections_defined_def)

lemma agrees_valid [simp]: "agrees g0 g \<Longrightarrow> is_valid_position g x y = is_valid_position g0 x y"
  by (simp add: agrees_def is_valid_position_def)

lemma agrees_positions: "agrees g0 g \<Longrightarrow> all_positions g = all_positions g0"
  by (simp add: agrees_def all_positions_def)

lemma agrees_refl: "grid_shape g \<Longrightarrow> every_tile connections_defined g \<Longrightarrow> agrees g g"
  by (simp add: agrees_def)

lemma agrees_put_tile:
  assumes "agrees g0 g" and "is_valid_position g0 x y"
    and "tile_type t = tile_type (tile_of g (x, y))"
    and "get_connections t = get_connections (tile_of g (x, y))"
    and "same_but_flags (tile_of g (x, y)) t"
  shows "agrees g0 (put_tile g (x, y) t)"
proof -
  from assms(1) have sh: "grid_shape g" and ev: "every_tile connections_defined g"
    by (simp_all add: agrees_def)
  from assms(1,2) have v: "is_valid_position g x y" by simp
  have od: "open_directions t = open_directions (tile_of g (x, y))"
    using assms(4) by (simp add: open_directions_def)
  have "connections_defined (tile_of g (x, y))" using every_tileD[OF ev sh v] .
  then have "connections_defined t" using assms(4) by (simp add: connections_defined_def)
  then have ev': "every_tile connections_defined (put_tile g (x, y) t)"
    using ev by (rule every_tile_put_tile[rotated])
  have "same_but_flags (tile_of g0 (x', y')) (tile_of (put_tile g (x, y) t) (x', y')) \<and>
        tile_type (tile_of (put_tile g (x, y) t) (x', y')) = tile_type (tile_of g0 (x', y')) \<and>
        open_directions (tile_of (put_tile g (x, y) t) (x', y')) = open_directions (tile_of g0 (x', y'))"
    if "is_valid_position g0 x' y'" for x' y'
  proof -
    from that assms(1) have v': "is_valid_position g x' y'" by simp
    from assms(1) that have old: "tile_type (tile_of g (x', y')) = tile_type (tile_of g0 (x', y'))"
      "open_directions (tile_of g (x', y')) = open_directions (tile_of g0 (x', y'))"
      "same_but_flags (tile_of g0 (x', y')) (tile_of g (x', y'))"
      by (simp_all add: agrees_def)
    note tp = tile_of_put_tile[OF sh v v', of t]
    show ?thesis
    proof (cases "(x', y') = (x, y)")
      case True
      then have "tile_of (put_tile g (x, y) t) (x', y') = t"
        and "tile_of g (x', y') = tile_of g (x, y)" using tp by simp_all
      with old od assms(3) same_but_flags_trans[OF old(3), of t] assms(5) show ?thesis
        by simp
    next
      case False
      then have "tile_of (put_tile g (x, y) t) (x', y') = tile_of g (x', y')" using tp by auto
      with old show ?thesis by simp
    qed
  qed
  with assms(1) sh ev' show ?thesis by (simp add: agrees_def)
qed

lemma reset_flags_result:
  assumes "agrees g0 g" and "set ps \<subseteq> set (all_positions g0)"
  shows "\<exists>g'. reset_flags g ps = Inr g' \<and> agrees g0 g' \<and>
           (\<forall>x y. is_valid_position g0 x y \<longrightarrow>
              tile_of g' (x, y) = (if (x, y) \<in> set ps then reset_tile (tile_of g (x, y))
                                   else tile_of g (x, y)))"
  using assms
proof (induction ps arbitrary: g)
  case Nil
  then show ?case by simp
next
  case (Cons p ps)
  obtain x y where p: "p = (x, y)" by (cases p)
  with Cons.prems have v0: "is_valid_position g0 x y" by (simp add: all_positions_valid)
  with Cons.prems(1) have v: "is_valid_position g x y" by simp
  from Cons.prems(1) have sh: "grid_shape g" by (simp add: agrees_def)
  let ?g1 = "put_tile g (x, y) (reset_tile (tile_of g (x, y)))"
  have ag: "agrees g0 ?g1" using Cons.prems(1) v0 by (rule agrees_put_tile) simp_all
  from Cons.prems(2) have sub: "set ps \<subseteq> set (all_positions g0)" by simp
  from Cons.IH[OF ag sub] obtain g' where
    g': "reset_flags ?g1 ps = Inr g'" "agrees g0 g'"
    "\<forall>x' y'. is_valid_position g0 x' y' \<longrightarrow>
       tile_of g' (x', y') = (if (x', y') \<in> set ps then reset_tile (tile_of ?g1 (x', y'))
                              else tile_of ?g1 (x', y'))"
    by blast
  have run: "reset_flags g (p # ps) = Inr g'"
    using p g'(1) by (simp add: grid_at_inside[OF sh v] set_tile_inside[OF sh v])
  have "tile_of g' (x', y') = (if (x', y') \<in> set (p # ps) then reset_tile (tile_of g (x', y'))
                               else tile_of g (x', y'))"
    if "is_valid_position g0 x' y'" for x' y'
  proof -
    from that Cons.prems(1) have v': "is_valid_position g x' y'" by simp
    have tp: "tile_of ?g1 (x', y') =
        (if (x', y') = (x, y) then reset_tile (tile_of g (x, y)) else tile_of g (x', y'))"
      using tile_of_put_tile[OF sh v v'] .
    from g'(3) that have "tile_of g' (x', y') =
        (if (x', y') \<in> set ps then reset_tile (tile_of ?g1 (x', y')) else tile_of ?g1 (x', y'))"
      by blast
    then show ?thesis unfolding tp p by auto
  qed
  with run g'(2) show ?case by blast
qed

section \<open>The traversal\<close>

definition inside :: "PuzzleGame \<Rightarrow> int \<times> int \<Rightarrow> bool" where
  "inside g p = is_valid_position g (fst p) (snd p)"

text \<open>The cells one pass over the directions \<open>ds\<close> of the cell \<open>p\<close> can add.\<close>

definition targets :: "PuzzleGame \<Rightarrow> int \<times> int \<Rightarrow> Direction list \<Rightarrow> (int \<times> int) set" where
  "targets g p ds =
     {n. \<exists>d\<in>set ds. get_neighbor_position (fst p) (snd p) d = n \<and> inside g n \<and>
           get_opposite_direction d \<in> set (open_directions (tile_of g n))}"

text \<open>The invariant of the traversal, on the game \<open>g0\<close> it started from: the queue is
  visited; visited cells are inside the grid and reachable; a used tile is visited, powered,
  and all cells linked to it are visited; a visited cell is used or still queued; and a tile
  that is not used is powered only when it is a source tile that was powered at the start.\<close>

definition bfs_inv ::
  "PuzzleGame \<Rightarrow> PuzzleGame \<Rightarrow> (int \<times> int) list \<Rightarrow> (int \<times> int) set \<Rightarrow> bool" where
  "bfs_inv g0 g queue visited =
     (agrees g0 g \<and> set queue \<subseteq> visited \<and>
      (\<forall>p\<in>visited. inside g0 p \<and> reachable g0 p) \<and>
      (\<forall>p. inside g0 p \<and> used_in_solution (tile_of g p) \<longrightarrow>
           p \<in> visited \<and> is_powered (tile_of g p) \<and> (\<forall>n. linked g0 p n \<longrightarrow> n \<in> visited)) \<and>
      (\<forall>p\<in>visited. used_in_solution (tile_of g p) \<or> p \<in> set queue) \<and>
      (\<forall>p. inside g0 p \<and> \<not> used_in_solution (tile_of g p) \<longrightarrow>
           is_powered (tile_of g p)
             = (tile_type (tile_of g0 p) = POWER_SOURCE \<and> is_powered (tile_of g0 p))))"

lemma inside_pair [simp]: "inside g (x, y) = is_valid_position g x y"
  by (simp add: inside_def)

lemma targets_Nil [simp]: "targets g p [] = {}"
  by (simp add: targets_def)

lemma targets_Cons:
  "targets g p (d # ds) =
     (if inside g (get_neighbor_position (fst p) (snd p) d) \<and>
         get_opposite_direction d
           \<in> set (open_directions (tile_of g (get_neighbor_position (fst p) (snd p) d)))
      then insert (get_neighbor_position (fst p) (snd p) d) (targets g p ds)
      else targets g p ds)"
  by (auto simp: targets_def)

lemma targets_linked:
  "inside g p \<Longrightarrow> targets g p (open_directions (tile_of g p)) = {n. linked g p n}"
  by (auto simp: targets_def linked_def inside_def)

lemma tile_of_put_tile_inside:
  "grid_shape g \<Longrightarrow> inside g p \<Longrightarrow> inside g p' \<Longrightarrow>
   tile_of (put_tile g p t) p' = (if p' = p then t else tile_of g p')"
  using tile_of_put_tile[of g "fst p" "snd p" "fst p'" "snd p'" t]
  by (simp add: inside_def)

lemma agrees_directions:
  "agrees g0 g \<Longrightarrow> inside g0 p \<Longrightarrow> open_directions (tile_of g p) = open_directions (tile_of g0 p)"
  by (cases p) (simp add: agrees_def)

lemma agrees_defined:
  assumes "agrees g0 g" and "inside g0 p"
  shows "connections_defined (tile_of g p)"
proof -
  obtain x y where p: "p = (x, y)" by (cases p)
  from assms have "every_tile connections_defined g" "grid_shape g" "is_valid_position g x y"
    by (simp_all add: agrees_def p is_valid_position_def)
  then show ?thesis unfolding p by (rule every_tileD)
qed

lemma visit_directions_result:
  assumes "agrees g0 g"
  shows "\<exists>q' vis'. visit_directions g x y ds (q, vis) = Inr (q', vis') \<and>
           vis' = vis \<union> targets g0 (x, y) ds \<and> set q' = set q \<union> (vis' - vis)"
proof (induction ds arbitrary: q vis)
  case Nil
  then show ?case by simp
next
  case (Cons d ds)
  obtain nx ny where n: "get_neighbor_position x y d = (nx, ny)"
    by (cases "get_neighbor_position x y d")
  from assms have sh: "grid_shape g" by (simp add: agrees_def)
  show ?case
  proof (cases "is_valid_position g0 nx ny")
    case False
    with Cons[of q vis] n assms show ?thesis by (simp add: targets_Cons)
  next
    case True
    with assms have v: "is_valid_position g nx ny" by simp
    have od: "open_directions (tile_of g (nx, ny)) = open_directions (tile_of g0 (nx, ny))"
      using agrees_directions[OF assms, of "(nx, ny)"] True by simp
    have "connections_defined (tile_of g (nx, ny))"
      using agrees_defined[OF assms, of "(nx, ny)"] True by simp
    note c = is_connected_to_open_directions[OF this, of "get_opposite_direction d"]
    show ?thesis
    proof (cases "(nx, ny) \<in> vis")
      case True
      from Cons[of q vis] obtain q' vis' where r:
        "visit_directions g x y ds (q, vis) = Inr (q', vis')"
        "vis' = vis \<union> targets g0 (x, y) ds" "set q' = set q \<union> (vis' - vis)" by blast
      have "visit_directions g x y (d # ds) (q, vis) = Inr (q', vis')"
        using n True r(1) by simp
      moreover have "vis' = vis \<union> targets g0 (x, y) (d # ds)"
        using r(2) True n by (auto simp: targets_Cons)
      ultimately show ?thesis using r(3) by blast
    next
      case False
      show ?thesis
      proof (cases "get_opposite_direction d \<in> set (open_directions (tile_of g0 (nx, ny)))")
        case open_back: True
        from Cons[of "q @ [(nx, ny)]" "insert (nx, ny) vis"] obtain q' vis' where r:
          "visit_directions g x y ds (q @ [(nx, ny)], insert (nx, ny) vis) = Inr (q', vis')"
          "vis' = insert (nx, ny) vis \<union> targets g0 (x, y) ds"
          "set q' = set (q @ [(nx, ny)]) \<union> (vis' - insert (nx, ny) vis)" by blast
        have "visit_directions g x y (d # ds) (q, vis) = Inr (q', vis')"
          using n v False r(1) c od open_back by (simp add: grid_at_inside[OF sh v])
        moreover have "vis' = vis \<union> targets g0 (x, y) (d # ds)"
          using r(2) n \<open>is_valid_position g0 nx ny\<close> open_back by (auto simp: targets_Cons)
        moreover have "set q' = set q \<union> (vis' - vis)"
          using r(2,3) False by auto
        ultimately show ?thesis by blast
      next
        case closed: False
        from Cons[of q vis] obtain q' vis' where r:
          "visit_directions g x y ds (q, vis) = Inr (q', vis')"
          "vis' = vis \<union> targets g0 (x, y) ds" "set q' = set q \<union> (vis' - vis)" by blast
        have "visit_directions g x y (d # ds) (q, vis) = Inr (q', vis')"
          using n v False r(1) c od closed by (simp add: grid_at_inside[OF sh v])
        moreover have "vis' = vis \<union> targets g0 (x, y) (d # ds)"
          using r(2) n closed by (auto simp: targets_Cons)
        ultimately show ?thesis using r(3) by blast
      qed
    qed
  qed
qed

lemma bfs_invD:
  assumes "bfs_inv g0 g queue visited"
  shows "agrees g0 g"
    and "set queue \<subseteq> visited"
    and "\<And>c. c \<in> visited \<Longrightarrow> inside g0 c \<and> reachable g0 c"
    and "\<And>c. inside g0 c \<Longrightarrow> used_in_solution (tile_of g c) \<Longrightarrow>
           c \<in> visited \<and> is_powered (tile_of g c) \<and> (\<forall>n. linked g0 c n \<longrightarrow> n \<in> visited)"
    and "\<And>c. c \<in> visited \<Longrightarrow> used_in_solution (tile_of g c) \<or> c \<in> set queue"
    and "\<And>c. inside g0 c \<Longrightarrow> \<not> used_in_solution (tile_of g c) \<Longrightarrow>
           is_powered (tile_of g c)
             = (tile_type (tile_of g0 c) = POWER_SOURCE \<and> is_powered (tile_of g0 c))"
  using assms unfolding bfs_inv_def by blast+

lemma bfs_invI:
  assumes "agrees g0 g"
    and "set queue \<subseteq> visited"
    and "\<And>c. c \<in> visited \<Longrightarrow> inside g0 c \<and> reachable g0 c"
    and "\<And>c. inside g0 c \<Longrightarrow> used_in_solution (tile_of g c) \<Longrightarrow>
           c \<in> visited \<and> is_powered (tile_of g c) \<and> (\<forall>n. linked g0 c n \<longrightarrow> n \<in> visited)"
    and "\<And>c. c \<in> visited \<Longrightarrow> used_in_solution (tile_of g c) \<or> c \<in> set queue"
    and "\<And>c. inside g0 c \<Longrightarrow> \<not> used_in_solution (tile_of g c) \<Longrightarrow>
           is_powered (tile_of g c)
             = (tile_type (tile_of g0 c) = POWER_SOURCE \<and> is_powered (tile_of g0 c))"
  shows "bfs_inv g0 g queue visited"
  unfolding bfs_inv_def using assms by blast

lemma bfs_inv_step:
  assumes inv: "bfs_inv g0 g (p # queue) visited"
    and g1: "g1 = put_tile g p (mark_tile (tile_of g p))"
    and vis': "vis' = visited \<union> {n. linked g0 p n}"
    and q': "set q' = set queue \<union> (vis' - visited)"
  shows "bfs_inv g0 g1 q' vis'"
proof (rule bfs_invI)
  note ag = bfs_invD(1)[OF inv] and sub = bfs_invD(2)[OF inv] and reach = bfs_invD(3)[OF inv]
    and used = bfs_invD(4)[OF inv] and pending = bfs_invD(5)[OF inv] and dark = bfs_invD(6)[OF inv]
  from sub have pv: "p \<in> visited" and subq: "set queue \<subseteq> visited" by simp_all
  from reach[OF pv] have p0: "inside g0 p" and pr: "reachable g0 p" by simp_all
  from ag have sh: "grid_shape g" by (simp add: agrees_def)
  from ag p0 have pin: "inside g p" by (cases p) simp
  show ag1: "agrees g0 g1"
    unfolding g1 using agrees_put_tile[OF ag, of "fst p" "snd p" "mark_tile (tile_of g p)"] p0
    by (simp add: inside_def)
  have tile: "tile_of g1 c = (if c = p then mark_tile (tile_of g p) else tile_of g c)"
    if "inside g0 c" for c
  proof -
    from ag that have "inside g c" by (cases c) simp
    then show ?thesis unfolding g1 using tile_of_put_tile_inside[OF sh pin] by simp
  qed
  show "set q' \<subseteq> vis'" using q' vis' subq by auto
  show "inside g0 c \<and> reachable g0 c" if "c \<in> vis'" for c
  proof (cases "c \<in> visited")
    case True
    then show ?thesis by (rule reach)
  next
    case False
    with that vis' have l: "linked g0 p c" by simp
    then have "inside g0 c" by (simp add: linked_def inside_def)
    moreover have "reachable g0 c" using pr l by (rule reachable.step)
    ultimately show ?thesis by simp
  qed
  show "c \<in> vis' \<and> is_powered (tile_of g1 c) \<and> (\<forall>n. linked g0 c n \<longrightarrow> n \<in> vis')"
    if c0: "inside g0 c" and u: "used_in_solution (tile_of g1 c)" for c
  proof (cases "c = p")
    case True
    then show ?thesis using tile[OF p0] pv vis' by simp
  next
    case False
    with u tile[OF c0] have "used_in_solution (tile_of g c)" by simp
    from used[OF c0 this] show ?thesis using False tile[OF c0] vis' by simp
  qed
  show "used_in_solution (tile_of g1 c) \<or> c \<in> set q'" if cv: "c \<in> vis'" for c
  proof (cases "c = p")
    case True
    then show ?thesis using tile[OF p0] by simp
  next
    case np: False
    show ?thesis
    proof (cases "c \<in> visited")
      case True
      from reach[OF True] have c0: "inside g0 c" by simp
      from pending[OF True] np have "used_in_solution (tile_of g c) \<or> c \<in> set queue" by simp
      then show ?thesis using np tile[OF c0] q' by auto
    next
      case False
      with cv q' show ?thesis by simp
    qed
  qed
  show "is_powered (tile_of g1 c)
          = (tile_type (tile_of g0 c) = POWER_SOURCE \<and> is_powered (tile_of g0 c))"
    if c0: "inside g0 c" and nu: "\<not> used_in_solution (tile_of g1 c)" for c
  proof -
    from nu tile[OF c0] have np: "c \<noteq> p" by auto
    with tile[OF c0] have eq: "tile_of g1 c = tile_of g c" by simp
    from dark[OF c0] nu show ?thesis unfolding eq by simp
  qed
qed

lemma bfs_inv_enqueue:
  assumes inv: "bfs_inv g0 g [] visited" and s0: "inside g0 s" and sr: "reachable g0 s"
  shows "bfs_inv g0 g [s] (insert s visited)"
proof (rule bfs_invI)
  note ag = bfs_invD(1)[OF inv] and reach = bfs_invD(3)[OF inv]
    and used = bfs_invD(4)[OF inv] and pending = bfs_invD(5)[OF inv] and dark = bfs_invD(6)[OF inv]
  show "agrees g0 g" by (rule ag)
  show "set [s] \<subseteq> insert s visited" by simp
  show "inside g0 c \<and> reachable g0 c" if "c \<in> insert s visited" for c
    using that s0 sr reach[of c] by blast
  show "c \<in> insert s visited \<and> is_powered (tile_of g c)
          \<and> (\<forall>n. linked g0 c n \<longrightarrow> n \<in> insert s visited)"
    if "inside g0 c" and "used_in_solution (tile_of g c)" for c
    using used[OF that] by simp
  show "used_in_solution (tile_of g c) \<or> c \<in> set [s]" if "c \<in> insert s visited" for c
    using that pending[of c] by auto
  show "is_powered (tile_of g c)
          = (tile_type (tile_of g0 c) = POWER_SOURCE \<and> is_powered (tile_of g0 c))"
    if "inside g0 c" and "\<not> used_in_solution (tile_of g c)" for c
    using dark[OF that] .
qed

lemma bfs_while_result:
  "bfs_inv g0 g queue visited \<Longrightarrow>
   \<exists>g' vis'. bfs_while g queue visited = Inr (g', vis') \<and> bfs_inv g0 g' [] vis' \<and> visited \<subseteq> vis'"
proof (induction g queue visited rule: bfs_while.induct)
  case (1 g visited)
  then show ?case by simp
next
  case (2 g x y queue visited)
  note inv = "2.prems"
  note ag = bfs_invD(1)[OF inv]
  from bfs_invD(2)[OF inv] have pv: "(x, y) \<in> visited" by simp
  from bfs_invD(3)[OF inv pv] have p0: "is_valid_position g0 x y" by simp
  with ag have v: "is_valid_position g x y" by simp
  from ag have sh: "grid_shape g" by (simp add: agrees_def)
  let ?t = "mark_tile (tile_of g (x, y))"
  let ?g1 = "put_tile g (x, y) ?t"
  let ?cs = "open_directions (tile_of g0 (x, y))"
  have at: "grid_at g x y = Inr (tile_of g (x, y))" using grid_at_inside[OF sh v] .
  have st: "set_tile g x y ?t = Inr ?g1" using set_tile_inside[OF sh v] .
  have gc: "get_connections ?t = Inr ?cs"
    using get_connections_open_directions[OF agrees_defined[OF ag, of "(x, y)"]]
      agrees_directions[OF ag, of "(x, y)"] p0 by simp
  have ag1: "agrees g0 ?g1" using agrees_put_tile[OF ag p0, of ?t] by simp
  from visit_directions_result[OF ag1, of x y ?cs queue visited] obtain q' vis' where
    vd: "visit_directions ?g1 x y ?cs (queue, visited) = Inr (q', vis')"
    and vis': "vis' = visited \<union> targets g0 (x, y) ?cs"
    and q': "set q' = set queue \<union> (vis' - visited)" by blast
  have vis'': "vis' = visited \<union> {n. linked g0 (x, y) n}"
    using vis' targets_linked[of g0 "(x, y)"] p0 by simp
  have inv1: "bfs_inv g0 ?g1 q' vis'"
    using bfs_inv_step[OF inv refl vis'' q'] .
  from "2.IH"[OF at st gc vd refl inv1] obtain g' vis2 where
    r: "bfs_while ?g1 q' vis' = Inr (g', vis2)" "bfs_inv g0 g' [] vis2" "vis' \<subseteq> vis2" by blast
  have "bfs_while g ((x, y) # queue) visited = Inr (g', vis2)"
    using at st gc vd r(1) by simp
  moreover have "visited \<subseteq> vis2" using vis'' r(3) by auto
  ultimately show ?case using r(2) by blast
qed

lemma propagate_sources_result:
  assumes "bfs_inv g0 g [] visited" and "set srcs \<subseteq> set (power_sources g0)"
    and "\<forall>s\<in>set (power_sources g0). inside g0 s"
  shows "\<exists>g' vis'. propagate_sources g srcs visited = Inr (g', vis') \<and> bfs_inv g0 g' [] vis'
           \<and> visited \<union> set srcs \<subseteq> vis'"
  using assms(1,2)
proof (induction srcs arbitrary: g visited)
  case Nil
  then show ?case by simp
next
  case (Cons s srcs)
  obtain sx sy where s: "s = (sx, sy)" by (cases s)
  from Cons.prems(2) have sin: "s \<in> set (power_sources g0)" by simp
  with assms(3) have s0: "inside g0 s" by blast
  have sr: "reachable g0 s" using sin by (rule reachable.source)
  have "bfs_inv g0 g [s] (insert s visited)"
    using Cons.prems(1) s0 sr by (rule bfs_inv_enqueue)
  from bfs_while_result[OF this] obtain g1 vis1 where
    r1: "bfs_while g [s] (insert s visited) = Inr (g1, vis1)" "bfs_inv g0 g1 [] vis1"
    "insert s visited \<subseteq> vis1" by blast
  from Cons.prems(2) have "set srcs \<subseteq> set (power_sources g0)" by simp
  from Cons.IH[OF r1(2) this] obtain g' vis' where
    r: "propagate_sources g1 srcs vis1 = Inr (g', vis')" "bfs_inv g0 g' [] vis'"
    "vis1 \<union> set srcs \<subseteq> vis'" by blast
  have "propagate_sources g (s # srcs) visited = Inr (g', vis')"
    using s r1(1) r(1) by simp
  moreover have "visited \<union> set (s # srcs) \<subseteq> vis'" using r1(3) r(3) by auto
  ultimately show ?case using r(2) by blast
qed

section \<open>The result of the solver\<close>

text \<open>The three win predicates on a state of the game.\<close>

definition bulbs_lit :: "PuzzleGame \<Rightarrow> bool" where
  "bulbs_lit g = (\<forall>(x, y)\<in>set (bulbs g). is_powered (tile_of g (x, y)))"

definition pipes_used :: "PuzzleGame \<Rightarrow> bool" where
  "pipes_used g =
     (\<forall>(x, y)\<in>set (all_positions g).
        used_in_solution (tile_of g (x, y)) \<or> tile_type (tile_of g (x, y)) = EMPTY)"

lemma all_bulbs_lit_result:
  assumes "grid_shape g" and "\<forall>(x, y)\<in>set bs. is_valid_position g x y"
  shows "all_bulbs_lit g bs = Inr (\<forall>(x, y)\<in>set bs. is_powered (tile_of g (x, y)))"
  using assms(2)
proof (induction bs)
  case Nil
  then show ?case by simp
next
  case (Cons b bs)
  obtain x y where b: "b = (x, y)" by (cases b)
  with Cons.prems have v: "is_valid_position g x y" by simp
  from Cons have "all_bulbs_lit g bs = Inr (\<forall>(x, y)\<in>set bs. is_powered (tile_of g (x, y)))"
    by simp
  then show ?case using b grid_at_inside[OF assms(1) v] by simp
qed

lemma all_pipes_used_result:
  assumes "grid_shape g" and "\<forall>(x, y)\<in>set ps. is_valid_position g x y"
  shows "all_pipes_used g ps =
         Inr (\<forall>(x, y)\<in>set ps. used_in_solution (tile_of g (x, y))
                                  \<or> tile_type (tile_of g (x, y)) = EMPTY)"
  using assms(2)
proof (induction ps)
  case Nil
  then show ?case by simp
next
  case (Cons p ps)
  obtain x y where p: "p = (x, y)" by (cases p)
  with Cons.prems have v: "is_valid_position g x y" by simp
  from Cons have "all_pipes_used g ps =
         Inr (\<forall>(x, y)\<in>set ps. used_in_solution (tile_of g (x, y))
                                  \<or> tile_type (tile_of g (x, y)) = EMPTY)"
    by simp
  then show ?case using p grid_at_inside[OF assms(1) v] by simp
qed

lemma check_no_leaks_leak_free:
  assumes "grid_shape g" and "every_tile connections_defined g"
  shows "check_no_leaks g = Inr (leak_free g)"
proof -
  have "every_tile (\<lambda>t. tile_type t \<noteq> EMPTY \<or> is_powered t \<longrightarrow> connections_defined t) g"
    using assms(2) by (simp add: every_tile_def)
  from check_cells_leak_free[OF assms(1) this, of "all_positions g"]
  show ?thesis by (simp add: check_no_leaks_def leak_free_def)
qed

lemma is_solved_update_simps [simp]:
  "grid_at (g\<lparr>is_solved := b\<rparr>) x y = grid_at g x y"
  "tile_of (g\<lparr>is_solved := b\<rparr>) p = tile_of g p"
  "is_valid_position (g\<lparr>is_solved := b\<rparr>) x y = is_valid_position g x y"
  "all_positions (g\<lparr>is_solved := b\<rparr>) = all_positions g"
  "grid_shape (g\<lparr>is_solved := b\<rparr>) = grid_shape g"
  "every_tile P (g\<lparr>is_solved := b\<rparr>) = every_tile P g"
  "bulbs_lit (g\<lparr>is_solved := b\<rparr>) = bulbs_lit g"
  "pipes_used (g\<lparr>is_solved := b\<rparr>) = pipes_used g"
  by (simp_all add: grid_at_def tile_of_def is_valid_position_def all_positions_def
      grid_shape_def every_tile_def bulbs_lit_def pipes_used_def)

lemma connecting_is_solved [simp]: "connecting (g\<lparr>is_solved := b\<rparr>) x y d = connecting g x y d"
  by (simp add: connecting_def)

lemma leak_free_is_solved [simp]: "leak_free (g\<lparr>is_solved := b\<rparr>) = leak_free g"
  by (simp add: leak_free_def)

text \<open>The solver returns on a well-formed game; the state before the flag
  \<open>is_solved\<close> is stored satisfies the invariant of the traversal with an empty queue and
  all sources visited.\<close>

lemma update_power_flow_result:
  assumes "well_formed g"
  shows "\<exists>g2 vis. bfs_inv g g2 [] vis \<and> set (power_sources g) \<subseteq> vis \<and>
           update_power_flow g =
             Inr (bulbs_lit g2 \<and> pipes_used g2 \<and> leak_free g2,
                  g2\<lparr>is_solved := (bulbs_lit g2 \<and> pipes_used g2 \<and> leak_free g2)\<rparr>)"
proof -
  from assms have sh: "grid_shape g" and ev: "every_tile connections_defined g"
    and srcs: "\<forall>(x, y)\<in>set (power_sources g). is_valid_position g x y"
    and bs: "\<forall>(x, y)\<in>set (bulbs g). is_valid_position g x y"
    by (simp_all add: well_formed_def)
  have ag: "agrees g g" using sh ev by (rule agrees_refl)
  from reset_flags_result[OF ag subset_refl] obtain g1 where
    g1: "reset_flags g (all_positions g) = Inr g1" "agrees g g1"
    and t1: "\<forall>x y. is_valid_position g x y \<longrightarrow>
              tile_of g1 (x, y) = (if (x, y) \<in> set (all_positions g)
                                   then reset_tile (tile_of g (x, y)) else tile_of g (x, y))"
    by blast
  have reset: "tile_of g1 c = reset_tile (tile_of g c)" if "inside g c" for c
    using t1 that by (cases c) (simp add: all_positions_valid)
  have inv0: "bfs_inv g g1 [] {}"
  proof (rule bfs_invI)
    show "agrees g g1" by (rule g1(2))
    show "is_powered (tile_of g1 c)
            = (tile_type (tile_of g c) = POWER_SOURCE \<and> is_powered (tile_of g c))"
      if "inside g c" and "\<not> used_in_solution (tile_of g1 c)" for c
      using that reset[of c] by (simp add: reset_tile_def)
    show "c \<in> {} \<and> is_powered (tile_of g1 c) \<and> (\<forall>n. linked g c n \<longrightarrow> n \<in> {})"
      if "inside g c" and "used_in_solution (tile_of g1 c)" for c
      using that reset[of c] by simp
  qed simp_all
  have src_in: "\<forall>s\<in>set (power_sources g). inside g s"
    using srcs by (auto simp: inside_def)
  have ps1: "power_sources g1 = power_sources g" using g1(2) by (simp add: agrees_def)
  from propagate_sources_result[OF inv0 subset_refl src_in] obtain g2 vis where
    r: "propagate_sources g1 (power_sources g) {} = Inr (g2, vis)" "bfs_inv g g2 [] vis"
    "{} \<union> set (power_sources g) \<subseteq> vis" by blast
  note ag2 = bfs_invD(1)[OF r(2)]
  from ag2 have sh2: "grid_shape g2" and ev2: "every_tile connections_defined g2"
    and b2: "bulbs g2 = bulbs g" by (simp_all add: agrees_def)
  have bv: "\<forall>(x, y)\<in>set (bulbs g2). is_valid_position g2 x y"
    using bs ag2 b2 by auto
  have pv: "\<forall>(x, y)\<in>set (all_positions g2). is_valid_position g2 x y"
    by (auto simp: all_positions_valid)
  have lit: "all_bulbs_lit g2 (bulbs g2) = Inr (bulbs_lit g2)"
    using all_bulbs_lit_result[OF sh2 bv] by (simp add: bulbs_lit_def)
  have used: "all_pipes_used g2 (all_positions g2) = Inr (pipes_used g2)"
    using all_pipes_used_result[OF sh2 pv] by (simp add: pipes_used_def)
  have leaks: "check_no_leaks g2 = Inr (leak_free g2)"
    using check_no_leaks_leak_free[OF sh2 ev2] .
  have "update_power_flow g =
          Inr (bulbs_lit g2 \<and> pipes_used g2 \<and> leak_free g2,
               g2\<lparr>is_solved := (bulbs_lit g2 \<and> pipes_used g2 \<and> leak_free g2)\<rparr>)"
    by (simp add: update_power_flow_def g1(1) ps1 r(1) lit used leaks)
  with r(2,3) show ?thesis by blast
qed

text \<open>With an empty queue the visited cells are the used cells, and they are the
  reachable ones.\<close>

lemma bfs_inv_final:
  assumes inv: "bfs_inv g0 g [] vis" and srcs: "set (power_sources g0) \<subseteq> vis"
    and c0: "inside g0 c"
  shows "used_in_solution (tile_of g c) \<longleftrightarrow> reachable g0 c"
proof
  assume "used_in_solution (tile_of g c)"
  from bfs_invD(4)[OF inv c0 this] have "c \<in> vis" by simp
  from bfs_invD(3)[OF inv this] show "reachable g0 c" by simp
next
  assume "reachable g0 c"
  then have "c \<in> vis"
  proof (induction rule: reachable.induct)
    case (source s)
    with srcs show ?case by blast
  next
    case (step p q)
    from bfs_invD(5)[OF inv step.IH] have u: "used_in_solution (tile_of g p)" by simp
    from bfs_invD(3)[OF inv step.IH] have "inside g0 p" by simp
    from bfs_invD(4)[OF inv this u] step.hyps(2) show ?case by blast
  qed
  from bfs_invD(5)[OF inv this] show "used_in_solution (tile_of g c)" by simp
qed

lemma linked_same_grid:
  "grid h = grid g \<Longrightarrow> width h = width g \<Longrightarrow> height h = height g \<Longrightarrow> linked h p q = linked g p q"
  by (simp add: linked_def is_valid_position_def tile_of_def)

lemma reachable_same_grid_imp:
  assumes "grid h = grid g" and "width h = width g" and "height h = height g"
    and "set (power_sources h) = set (power_sources g)"
  shows "reachable h c \<Longrightarrow> reachable g c"
proof (induction rule: reachable.induct)
  case (source s)
  with assms(4) show ?case by (auto intro: reachable.source)
next
  case (step p q)
  from step.hyps(2) have "linked g p q" using linked_same_grid[OF assms(1-3)] by simp
  with step.IH show ?case by (rule reachable.step)
qed

lemma reachable_same_grid:
  assumes "grid h = grid g" and "width h = width g" and "height h = height g"
    and "set (power_sources h) = set (power_sources g)"
  shows "reachable h c = reachable g c"
proof
  assume "reachable h c"
  then show "reachable g c" by (rule reachable_same_grid_imp[OF assms])
next
  assume "reachable g c"
  then show "reachable h c"
    by (rule reachable_same_grid_imp[OF assms(1)[symmetric] assms(2)[symmetric]
          assms(3)[symmetric] assms(4)[symmetric]])
qed

text \<open>What the solver leaves on a well-formed game: the shape of the game is kept, the
  flag \<open>is_solved\<close> is the returned value and the conjunction of the three predicates, a
  tile is used exactly when its cell is reachable, and it is powered exactly when it is
  used or is a source tile that was powered before.\<close>

lemma update_power_flow_flags:
  assumes "well_formed g"
  shows "\<exists>solved g'. update_power_flow g = Inr (solved, g') \<and> agrees g (g'\<lparr>is_solved := is_solved g\<rparr>)
           \<and> is_solved g' = solved
           \<and> (solved \<longleftrightarrow> bulbs_lit g' \<and> pipes_used g' \<and> leak_free g')
           \<and> (\<forall>c. inside g c \<longrightarrow>
                 (used_in_solution (tile_of g' c) \<longleftrightarrow> reachable g c) \<and>
                 (is_powered (tile_of g' c) \<longleftrightarrow>
                    reachable g c \<or> (tile_type (tile_of g c) = POWER_SOURCE \<and> is_powered (tile_of g c))))"
proof -
  from update_power_flow_result[OF assms] obtain g2 vis where
    inv: "bfs_inv g g2 [] vis" and srcs: "set (power_sources g) \<subseteq> vis"
    and run: "update_power_flow g =
             Inr (bulbs_lit g2 \<and> pipes_used g2 \<and> leak_free g2,
                  g2\<lparr>is_solved := (bulbs_lit g2 \<and> pipes_used g2 \<and> leak_free g2)\<rparr>)"
    by blast
  let ?b = "bulbs_lit g2 \<and> pipes_used g2 \<and> leak_free g2"
  let ?g' = "g2\<lparr>is_solved := ?b\<rparr>"
  note ag = bfs_invD(1)[OF inv]
  have "?g'\<lparr>is_solved := is_solved g\<rparr> = g2" using ag by (simp add: agrees_def)
  then have a: "agrees g (?g'\<lparr>is_solved := is_solved g\<rparr>)" using ag by simp
  have f: "(used_in_solution (tile_of ?g' c) \<longleftrightarrow> reachable g c) \<and>
           (is_powered (tile_of ?g' c) \<longleftrightarrow>
              reachable g c \<or> (tile_type (tile_of g c) = POWER_SOURCE \<and> is_powered (tile_of g c)))"
    if c0: "inside g c" for c
  proof -
    note u = bfs_inv_final[OF inv srcs c0]
    show ?thesis
    proof (cases "used_in_solution (tile_of g2 c)")
      case True
      with bfs_invD(4)[OF inv c0 True] u show ?thesis by simp
    next
      case False
      with bfs_invD(6)[OF inv c0 False] u show ?thesis by simp
    qed
  qed
  have "is_solved ?g' = ?b \<and> (?b \<longleftrightarrow> bulbs_lit ?g' \<and> pipes_used ?g' \<and> leak_free ?g')" by simp
  with run a f show ?thesis by blast
qed

lemma grid_at_agrees:
  assumes "agrees g (g'\<lparr>is_solved := b\<rparr>)" and "is_valid_position g x y"
  shows "grid_at g' x y = Inr (tile_of g' (x, y))"
proof -
  from assms(1) have "grid_shape g'" by (simp add: agrees_def)
  moreover from assms have "is_valid_position g' x y"
    by (simp add: agrees_def is_valid_position_def)
  ultimately show ?thesis by (rule grid_at_inside)
qed

text \<open>C1: on a well-formed game \<open>update_power_flow\<close> returns, and afterwards the tile of a
  cell has \<open>used_in_solution\<close> set exactly when the cell is reachable from a cell of
  \<open>power_sources\<close> along reciprocally open edges. The marking does not depend on the order
  of the sources: a game with the same grid and the same set of sources in any order gets
  the same used and powered flags.\<close>

theorem update_power_flow_marks_reachable:
  assumes "well_formed g"
  shows "\<exists>solved g'. update_power_flow g = Inr (solved, g') \<and>
           (\<forall>x y. is_valid_position g x y \<longrightarrow>
              (\<exists>t. grid_at g' x y = Inr t \<and> (used_in_solution t \<longleftrightarrow> reachable g (x, y)))) \<and>
           (\<forall>h. well_formed h \<and> grid h = grid g \<and> width h = width g \<and> height h = height g
                 \<and> set (power_sources h) = set (power_sources g) \<longrightarrow>
              (\<exists>solved' h'. update_power_flow h = Inr (solved', h') \<and>
                 (\<forall>x y. is_valid_position g x y \<longrightarrow>
                    (\<exists>t t'. grid_at g' x y = Inr t \<and> grid_at h' x y = Inr t' \<and>
                       used_in_solution t' = used_in_solution t \<and> is_powered t' = is_powered t))))"
proof -
  from update_power_flow_flags[OF assms] obtain solved g' where
    run: "update_power_flow g = Inr (solved, g')"
    and ag: "agrees g (g'\<lparr>is_solved := is_solved g\<rparr>)"
    and fl: "\<forall>c. inside g c \<longrightarrow>
                 (used_in_solution (tile_of g' c) \<longleftrightarrow> reachable g c) \<and>
                 (is_powered (tile_of g' c) \<longleftrightarrow>
                    reachable g c \<or> (tile_type (tile_of g c) = POWER_SOURCE \<and> is_powered (tile_of g c)))"
    by blast
  have one: "\<forall>x y. is_valid_position g x y \<longrightarrow>
              (\<exists>t. grid_at g' x y = Inr t \<and> (used_in_solution t \<longleftrightarrow> reachable g (x, y)))"
  proof (intro allI impI)
    fix x y assume v: "is_valid_position g x y"
    from fl v have "used_in_solution (tile_of g' (x, y)) \<longleftrightarrow> reachable g (x, y)" by simp
    with grid_at_agrees[OF ag v]
    show "\<exists>t. grid_at g' x y = Inr t \<and> (used_in_solution t \<longleftrightarrow> reachable g (x, y))" by simp
  qed
  have two: "\<exists>solved' h'. update_power_flow h = Inr (solved', h') \<and>
                 (\<forall>x y. is_valid_position g x y \<longrightarrow>
                    (\<exists>t t'. grid_at g' x y = Inr t \<and> grid_at h' x y = Inr t' \<and>
                       used_in_solution t' = used_in_solution t \<and> is_powered t' = is_powered t))"
    if h: "well_formed h \<and> grid h = grid g \<and> width h = width g \<and> height h = height g
                 \<and> set (power_sources h) = set (power_sources g)" for h
  proof -
    from h have wf: "well_formed h" and same: "grid h = grid g" "width h = width g"
      "height h = height g" "set (power_sources h) = set (power_sources g)" by simp_all
    from update_power_flow_flags[OF wf] obtain solved' h' where
      runh: "update_power_flow h = Inr (solved', h')"
      and agh: "agrees h (h'\<lparr>is_solved := is_solved h\<rparr>)"
      and flh: "\<forall>c. inside h c \<longrightarrow>
                 (used_in_solution (tile_of h' c) \<longleftrightarrow> reachable h c) \<and>
                 (is_powered (tile_of h' c) \<longleftrightarrow>
                    reachable h c \<or> (tile_type (tile_of h c) = POWER_SOURCE \<and> is_powered (tile_of h c)))"
      by blast
    have "\<exists>t t'. grid_at g' x y = Inr t \<and> grid_at h' x y = Inr t' \<and>
            used_in_solution t' = used_in_solution t \<and> is_powered t' = is_powered t"
      if v: "is_valid_position g x y" for x y
    proof -
      from v same have vh: "is_valid_position h x y" by (simp add: is_valid_position_def)
      have t: "tile_of h (x, y) = tile_of g (x, y)" using same(1) by (simp add: tile_of_def)
      note r = reachable_same_grid[OF same, of "(x, y)"]
      from flh vh have "(used_in_solution (tile_of h' (x, y)) \<longleftrightarrow> reachable g (x, y)) \<and>
        (is_powered (tile_of h' (x, y)) \<longleftrightarrow> reachable g (x, y)
           \<or> (tile_type (tile_of g (x, y)) = POWER_SOURCE \<and> is_powered (tile_of g (x, y))))"
        unfolding r[symmetric] t[symmetric] by simp
      moreover from fl v have "(used_in_solution (tile_of g' (x, y)) \<longleftrightarrow> reachable g (x, y)) \<and>
        (is_powered (tile_of g' (x, y)) \<longleftrightarrow> reachable g (x, y)
           \<or> (tile_type (tile_of g (x, y)) = POWER_SOURCE \<and> is_powered (tile_of g (x, y))))"
        by simp
      ultimately show ?thesis
        using grid_at_agrees[OF ag v] grid_at_agrees[OF agh vh] by simp
    qed
    with runh show ?thesis by blast
  qed
  from run one two show ?thesis by blast
qed

lemma example_game_well_formed: "well_formed example_game"
  by code_simp

lemma example_game_solved:
  "update_power_flow example_game =
     Inr (True,
       \<lparr> width = 3, height = 1,
         grid = [[\<lparr>tile_type = POWER_SOURCE, max_rotation = 4, rotation = 0, is_powered = True,
                   used_in_solution = True, power_connection_pattern = Some 0\<rparr>,
                  \<lparr>tile_type = STRAIGHT, max_rotation = 2, rotation = 1, is_powered = True,
                   used_in_solution = True, power_connection_pattern = None\<rparr>,
                  \<lparr>tile_type = LIGHT_BULB, max_rotation = 4, rotation = 3, is_powered = True,
                   used_in_solution = True, power_connection_pattern = None\<rparr>]],
         power_sources = [(0, 0)], bulbs = [(2, 0)], is_solved = True \<rparr>)"
  by code_simp

theorem update_power_flow_marks_reachable_witness:
  "well_formed example_game \<and> reachable example_game (2, 0)"
proof -
  have v: "is_valid_position example_game 2 0" by (simp add: example_eval)
  from update_power_flow_marks_reachable[OF example_game_well_formed] obtain solved g' where
    r: "update_power_flow example_game = Inr (solved, g')"
    and m: "\<forall>x y. is_valid_position example_game x y \<longrightarrow>
              (\<exists>t. grid_at g' x y = Inr t \<and> (used_in_solution t \<longleftrightarrow> reachable example_game (x, y)))"
    by blast
  from m v obtain t where
    t: "grid_at g' 2 0 = Inr t" "used_in_solution t \<longleftrightarrow> reachable example_game (2, 0)" by blast
  from r have g': "g' = snd (True,
       \<lparr> width = 3, height = 1,
         grid = [[\<lparr>tile_type = POWER_SOURCE, max_rotation = 4, rotation = 0, is_powered = True,
                   used_in_solution = True, power_connection_pattern = Some 0\<rparr>,
                  \<lparr>tile_type = STRAIGHT, max_rotation = 2, rotation = 1, is_powered = True,
                   used_in_solution = True, power_connection_pattern = None\<rparr>,
                  \<lparr>tile_type = LIGHT_BULB, max_rotation = 4, rotation = 3, is_powered = True,
                   used_in_solution = True, power_connection_pattern = None\<rparr>]],
         power_sources = [(0, 0)], bulbs = [(2, 0)], is_solved = True \<rparr>)"
    unfolding example_game_solved by simp
  from t(1) have "used_in_solution t"
    unfolding g' by (auto simp: grid_at_def py_get_def py_position_def)
  with t(2) example_game_well_formed show ?thesis by simp
qed

lemma agrees_after:
  assumes "agrees g (g'\<lparr>is_solved := b\<rparr>)"
  shows "grid_shape g'" and "every_tile connections_defined g'"
    and "bulbs g' = bulbs g" and "power_sources g' = power_sources g"
    and "is_valid_position g' x y = is_valid_position g x y"
    and "all_positions g' = all_positions g"
  using assms by (simp_all add: agrees_def is_valid_position_def all_positions_def)

text \<open>The game the solver returns is the input with a new grid and a new \<open>is_solved\<close>;
  the new grid has the old shape, and each tile is the old tile with \<open>used_in_solution\<close>
  set exactly on reachable cells and \<open>is_powered\<close> set exactly on reachable cells and on
  source tiles that were powered before.\<close>

lemma update_power_flow_tiles:
  assumes "well_formed g"
  shows "\<exists>solved g'. update_power_flow g = Inr (solved, g') \<and>
           g' = g\<lparr>grid := grid g', is_solved := solved\<rparr> \<and> grid_shape g' \<and>
           bulbs g' = bulbs g \<and> width g' = width g \<and> height g' = height g \<and>
           every_tile connections_defined g' \<and>
           (solved \<longleftrightarrow> bulbs_lit g' \<and> pipes_used g' \<and> leak_free g') \<and>
           (\<forall>x y. is_valid_position g x y \<longrightarrow>
              grid_at g x y = Inr (tile_of g (x, y)) \<and>
              grid_at g' x y =
                Inr ((tile_of g (x, y))
                      \<lparr>is_powered := (reachable g (x, y) \<or>
                          tile_type (tile_of g (x, y)) = POWER_SOURCE \<and> is_powered (tile_of g (x, y))),
                       used_in_solution := reachable g (x, y)\<rparr>))"
proof -
  from update_power_flow_flags[OF assms] obtain solved g' where
    run: "update_power_flow g = Inr (solved, g')"
    and ag: "agrees g (g'\<lparr>is_solved := is_solved g\<rparr>)"
    and st: "is_solved g' = solved"
    and eq: "solved \<longleftrightarrow> bulbs_lit g' \<and> pipes_used g' \<and> leak_free g'"
    and fl: "\<forall>c. inside g c \<longrightarrow>
                 (used_in_solution (tile_of g' c) \<longleftrightarrow> reachable g c) \<and>
                 (is_powered (tile_of g' c) \<longleftrightarrow>
                    reachable g c \<or> (tile_type (tile_of g c) = POWER_SOURCE \<and> is_powered (tile_of g c)))"
    by blast
  from assms have sh: "grid_shape g" by (simp add: well_formed_def)
  note after = agrees_after[OF ag]
  have same: "g' = g\<lparr>grid := grid g', is_solved := solved\<rparr>"
    using ag st by (cases g, cases g') (simp add: agrees_def)
  have tiles: "grid_at g x y = Inr (tile_of g (x, y)) \<and>
              grid_at g' x y =
                Inr ((tile_of g (x, y))
                      \<lparr>is_powered := (reachable g (x, y) \<or>
                          tile_type (tile_of g (x, y)) = POWER_SOURCE \<and> is_powered (tile_of g (x, y))),
                       used_in_solution := reachable g (x, y)\<rparr>)"
    if v: "is_valid_position g x y" for x y
  proof -
    from ag v have "same_but_flags (tile_of g (x, y)) (tile_of g' (x, y))"
      by (simp add: agrees_def)
    from same_but_flags_eq[OF this] fl v
    have "tile_of g' (x, y) = (tile_of g (x, y))
                      \<lparr>is_powered := (reachable g (x, y) \<or>
                          tile_type (tile_of g (x, y)) = POWER_SOURCE \<and> is_powered (tile_of g (x, y))),
                       used_in_solution := reachable g (x, y)\<rparr>"
      by simp
    with grid_at_agrees[OF ag v] grid_at_inside[OF sh v] show ?thesis by simp
  qed
  have dims: "width g' = width g" "height g' = height g"
    using ag by (simp_all add: agrees_def)
  from run same after(1,2,3) dims eq tiles show ?thesis by blast
qed

text \<open>C3: on a well-formed game \<open>update_power_flow\<close> returns a value and stores the
  same value in \<open>is_solved\<close>. The game it leaves is the input with a new grid of the same
  shape, in which each tile is the input tile with the flags the propagation gives it. The
  value is the conjunction of three predicates on that state: every cell of \<open>bulbs\<close> has a
  powered tile, every tile of the grid is used or Empty, and \<open>check_no_leaks\<close> holds.\<close>

theorem update_power_flow_is_solved:
  assumes "well_formed g"
  shows "\<exists>solved g'. update_power_flow g = Inr (solved, g') \<and>
           g' = g\<lparr>grid := grid g', is_solved := solved\<rparr> \<and> grid_shape g' \<and>
           (\<forall>x y. is_valid_position g x y \<longrightarrow>
              (\<exists>t0. grid_at g x y = Inr t0 \<and>
                 grid_at g' x y =
                   Inr (t0\<lparr>is_powered := (reachable g (x, y) \<or>
                                tile_type t0 = POWER_SOURCE \<and> is_powered t0),
                            used_in_solution := reachable g (x, y)\<rparr>))) \<and>
           (solved \<longleftrightarrow>
              (\<forall>(x, y)\<in>set (bulbs g). \<exists>t. grid_at g' x y = Inr t \<and> is_powered t) \<and>
              (\<forall>(x, y)\<in>set (all_positions g).
                  \<exists>t. grid_at g' x y = Inr t \<and> (used_in_solution t \<or> tile_type t = EMPTY)) \<and>
              check_no_leaks g' = Inr True)"
proof -
  from update_power_flow_tiles[OF assms] obtain solved g' where
    run: "update_power_flow g = Inr (solved, g')"
    and same: "g' = g\<lparr>grid := grid g', is_solved := solved\<rparr>"
    and sh': "grid_shape g'"
    and fields: "bulbs g' = bulbs g" "width g' = width g" "height g' = height g"
    and ev': "every_tile connections_defined g'"
    and eq: "solved \<longleftrightarrow> bulbs_lit g' \<and> pipes_used g' \<and> leak_free g'"
    and tiles: "\<forall>x y. is_valid_position g x y \<longrightarrow>
              grid_at g x y = Inr (tile_of g (x, y)) \<and>
              grid_at g' x y =
                Inr ((tile_of g (x, y))
                      \<lparr>is_powered := (reachable g (x, y) \<or>
                          tile_type (tile_of g (x, y)) = POWER_SOURCE \<and> is_powered (tile_of g (x, y))),
                       used_in_solution := reachable g (x, y)\<rparr>)"
    by blast
  have vv: "is_valid_position g' x y = is_valid_position g x y" for x y
    using fields by (simp add: is_valid_position_def)
  have pos: "all_positions g' = all_positions g" using fields by (simp add: all_positions_def)
  from assms have bv: "\<forall>(x, y)\<in>set (bulbs g). is_valid_position g x y"
    by (simp add: well_formed_def)
  have at: "grid_at g' x y = Inr (tile_of g' (x, y))" if "is_valid_position g x y" for x y
    using grid_at_inside[OF sh', of x y] that vv by simp
  have b: "bulbs_lit g' \<longleftrightarrow> (\<forall>(x, y)\<in>set (bulbs g). \<exists>t. grid_at g' x y = Inr t \<and> is_powered t)"
    unfolding bulbs_lit_def fields(1) using bv at by fastforce
  have p: "pipes_used g' \<longleftrightarrow>
           (\<forall>(x, y)\<in>set (all_positions g).
               \<exists>t. grid_at g' x y = Inr t \<and> (used_in_solution t \<or> tile_type t = EMPTY))"
    unfolding pipes_used_def pos using at by (fastforce simp: all_positions_valid)
  have l: "leak_free g' \<longleftrightarrow> check_no_leaks g' = Inr True"
    using check_no_leaks_leak_free[OF sh' ev'] by simp
  have one: "\<forall>x y. is_valid_position g x y \<longrightarrow>
              (\<exists>t0. grid_at g x y = Inr t0 \<and>
                 grid_at g' x y =
                   Inr (t0\<lparr>is_powered := (reachable g (x, y) \<or>
                                tile_type t0 = POWER_SOURCE \<and> is_powered t0),
                            used_in_solution := reachable g (x, y)\<rparr>))"
    using tiles by blast
  from run same sh' one eq show ?thesis unfolding b p l by blast
qed

theorem update_power_flow_is_solved_witness:
  "\<exists>g'. update_power_flow example_game = Inr (True, g') \<and> is_solved g'
       \<and> g' = example_game\<lparr>grid := grid g', is_solved := True\<rparr>
       \<and> check_no_leaks g' = Inr True"
  using update_power_flow_is_solved[OF example_game_well_formed]
  unfolding example_game_solved by auto

text \<open>C10: after \<open>update_power_flow\<close> on a well-formed game, the tile of every cell is
  the input tile up to its two flags. A tile whose variant is not PowerSource has
  \<open>is_powered\<close> equal to \<open>used_in_solution\<close>, both true exactly when its cell is
  reachable; and at every cell of \<open>power_sources\<close> both flags are true.\<close>

theorem update_power_flow_powered_is_used:
  assumes "well_formed g"
  shows "\<exists>solved g'. update_power_flow g = Inr (solved, g') \<and>
           g' = g\<lparr>grid := grid g', is_solved := solved\<rparr> \<and> grid_shape g' \<and>
           (\<forall>x y. is_valid_position g x y \<longrightarrow>
              (\<exists>t0 t. grid_at g x y = Inr t0 \<and> grid_at g' x y = Inr t \<and>
                 same_but_flags t0 t \<and> tile_type t = tile_type t0 \<and>
                 t = t0\<lparr>is_powered := (reachable g (x, y) \<or>
                              tile_type t0 = POWER_SOURCE \<and> is_powered t0),
                          used_in_solution := reachable g (x, y)\<rparr> \<and>
                 (tile_type t0 \<noteq> POWER_SOURCE \<longrightarrow>
                    is_powered t = used_in_solution t \<and>
                    (used_in_solution t \<longleftrightarrow> reachable g (x, y))))) \<and>
           (\<forall>(x, y)\<in>set (power_sources g).
              \<exists>t. grid_at g' x y = Inr t \<and> is_powered t \<and> used_in_solution t)"
proof -
  from update_power_flow_tiles[OF assms] obtain solved g' where
    run: "update_power_flow g = Inr (solved, g')"
    and same: "g' = g\<lparr>grid := grid g', is_solved := solved\<rparr>"
    and sh': "grid_shape g'"
    and tiles: "\<forall>x y. is_valid_position g x y \<longrightarrow>
              grid_at g x y = Inr (tile_of g (x, y)) \<and>
              grid_at g' x y =
                Inr ((tile_of g (x, y))
                      \<lparr>is_powered := (reachable g (x, y) \<or>
                          tile_type (tile_of g (x, y)) = POWER_SOURCE \<and> is_powered (tile_of g (x, y))),
                       used_in_solution := reachable g (x, y)\<rparr>)"
    by blast
  from assms have sv: "\<forall>(x, y)\<in>set (power_sources g). is_valid_position g x y"
    by (simp add: well_formed_def)
  have one: "\<exists>t0 t. grid_at g x y = Inr t0 \<and> grid_at g' x y = Inr t \<and>
                 same_but_flags t0 t \<and> tile_type t = tile_type t0 \<and>
                 t = t0\<lparr>is_powered := (reachable g (x, y) \<or>
                              tile_type t0 = POWER_SOURCE \<and> is_powered t0),
                          used_in_solution := reachable g (x, y)\<rparr> \<and>
                 (tile_type t0 \<noteq> POWER_SOURCE \<longrightarrow>
                    is_powered t = used_in_solution t \<and>
                    (used_in_solution t \<longleftrightarrow> reachable g (x, y)))"
    if v: "is_valid_position g x y" for x y
    using tiles v by (simp add: same_but_flags_def)
  have two: "\<exists>t. grid_at g' x y = Inr t \<and> is_powered t \<and> used_in_solution t"
    if s: "(x, y) \<in> set (power_sources g)" for x y
  proof -
    from sv s have v: "is_valid_position g x y" by auto
    have "reachable g (x, y)" using s by (rule reachable.source)
    with tiles v show ?thesis by simp
  qed
  from run same sh' one two show ?thesis by blast
qed

theorem update_power_flow_powered_is_used_witness:
  "\<exists>g' t. update_power_flow example_game = Inr (True, g') \<and> grid_at g' 0 0 = Inr t
       \<and> is_powered t \<and> used_in_solution t"
proof -
  have s: "power_sources example_game = [(0, 0)]" by (simp add: example_game_def)
  show ?thesis
    using update_power_flow_powered_is_used[OF example_game_well_formed]
    unfolding example_game_solved s by auto
qed

section \<open>The interaction handler\<close>

lemma update_power_flow_stores:
  "update_power_flow g = Inr (solved, g') \<Longrightarrow> is_solved g' = solved"
  by (auto simp: update_power_flow_def split: sum.splits prod.splits)

lemma rotate_directions_defined [simp]: "rotate_directions r ds \<noteq> Inl e"
  using rotate_directions_values[of r ds] by auto

lemma rotate_tile_defined:
  assumes "connections_defined t" and "max_rotation t = ROTATIONS (tile_type t)"
  shows "connections_defined (snd (rotate_tile t))"
proof (cases "1 < max_rotation t")
  case False
  with assms(1) show ?thesis by (simp add: rotate_tile_def)
next
  case True
  then have r: "(rotation t + 1) mod max_rotation t < length (CONNECTION_MAPS (tile_type t))"
    using assms(2) by (simp add: length_CONNECTION_MAPS)
  from assms(1) True r show ?thesis
    by (auto simp: rotate_tile_def connections_defined_def get_connections_def list_index_def
        split: option.splits sum.splits if_splits)
qed

lemma well_formed_put_tile:
  assumes "well_formed g" and "connections_defined t"
  shows "well_formed (put_tile g p t)"
  using assms every_tile_put_tile[of connections_defined g t p]
  by (simp add: well_formed_def)

text \<open>C5, as the code has it: \<open>handle_click\<close> returns no value. On a position outside the
  grid it leaves the game as it is and raises nothing. Inside the grid, a tile of
  cardinality 1 is left alone and the solver is not run; a tile of larger cardinality is
  rotated by one step, the solver runs on the rotated grid, and the value the solver
  returns is the \<open>is_solved\<close> of the game after the call.\<close>

theorem handle_click_cases:
  assumes "well_formed g"
    and "every_tile (\<lambda>t. max_rotation t = ROTATIONS (tile_type t)) g"
    and "x = fst pos div TILE_SIZE" and "y = snd pos div TILE_SIZE"
  shows "(\<not> is_valid_position g x y \<longrightarrow> handle_click g pos = Inr g) \<and>
         (is_valid_position g x y \<longrightarrow>
            (\<exists>t. grid_at g x y = Inr t \<and>
               (ROTATIONS (tile_type t) = 1 \<longrightarrow> handle_click g pos = Inr g) \<and>
               (1 < ROTATIONS (tile_type t) \<longrightarrow>
                  (\<exists>g1 solved g2.
                     set_tile g x y (t\<lparr>rotation := (rotation t + 1) mod ROTATIONS (tile_type t)\<rparr>)
                       = Inr g1 \<and>
                     update_power_flow g1 = Inr (solved, g2) \<and>
                     handle_click g pos = Inr g2 \<and> is_solved g2 = solved))))"
proof (intro conjI impI)
  assume "\<not> is_valid_position g x y"
  then show "handle_click g pos = Inr g"
    using assms(3,4) by (simp add: handle_click_def Let_def)
next
  assume v: "is_valid_position g x y"
  from assms(1) have sh: "grid_shape g" and ev: "every_tile connections_defined g"
    by (simp_all add: well_formed_def)
  let ?t = "tile_of g (x, y)"
  note at = grid_at_inside[OF sh v]
  have mr: "max_rotation ?t = ROTATIONS (tile_type ?t)"
    using every_tileD[OF assms(2) sh v] .
  have cd: "connections_defined ?t" using every_tileD[OF ev sh v] .
  have still: "handle_click g pos = Inr g" if "ROTATIONS (tile_type ?t) = 1"
    using that assms(3,4) v at mr set_tile_inside[OF sh v, of ?t] put_tile_same[OF sh v]
    by (simp add: handle_click_def Let_def rotate_tile_def)
  have turn: "\<exists>g1 solved g2.
      set_tile g x y (?t\<lparr>rotation := (rotation ?t + 1) mod ROTATIONS (tile_type ?t)\<rparr>) = Inr g1 \<and>
      update_power_flow g1 = Inr (solved, g2) \<and>
      handle_click g pos = Inr g2 \<and> is_solved g2 = solved"
    if big: "1 < ROTATIONS (tile_type ?t)"
  proof -
    let ?t' = "?t\<lparr>rotation := (rotation ?t + 1) mod ROTATIONS (tile_type ?t)\<rparr>"
    let ?g1 = "put_tile g (x, y) ?t'"
    have rt: "rotate_tile ?t = (True, ?t')" using big mr by (simp add: rotate_tile_def)
    have st: "set_tile g x y ?t' = Inr ?g1" using set_tile_inside[OF sh v] .
    have "connections_defined ?t'" using rotate_tile_defined[OF cd mr] rt by simp
    then have "well_formed ?g1" using assms(1) by (rule well_formed_put_tile[rotated])
    from update_power_flow_flags[OF this] obtain solved g2 where
      run: "update_power_flow ?g1 = Inr (solved, g2)" by blast
    have "handle_click g pos = Inr g2"
      using assms(3,4) v at rt st run by (simp add: handle_click_def Let_def)
    with st run update_power_flow_stores[OF run] show ?thesis by blast
  qed
  from at still turn
  show "\<exists>t. grid_at g x y = Inr t \<and>
               (ROTATIONS (tile_type t) = 1 \<longrightarrow> handle_click g pos = Inr g) \<and>
               (1 < ROTATIONS (tile_type t) \<longrightarrow>
                  (\<exists>g1 solved g2.
                     set_tile g x y (t\<lparr>rotation := (rotation t + 1) mod ROTATIONS (tile_type t)\<rparr>)
                       = Inr g1 \<and>
                     update_power_flow g1 = Inr (solved, g2) \<and>
                     handle_click g pos = Inr g2 \<and> is_solved g2 = solved))"
    by blast
qed

lemma example_game_cardinalities:
  "every_tile (\<lambda>t. max_rotation t = ROTATIONS (tile_type t)) example_game"
  by (simp add: example_eval)

theorem handle_click_cases_witness:
  "handle_click example_game (200, 30) = Inr example_game
   \<and> (\<exists>g2 t. handle_click example_game (90, 30) = Inr g2 \<and> \<not> is_solved g2
         \<and> grid_at g2 2 0 = Inr t \<and> \<not> is_powered t)"
proof -
  have out: "\<not> is_valid_position example_game (fst (200, 30) div TILE_SIZE) (snd (200, 30) div TILE_SIZE)"
    by (simp add: example_eval TILE_SIZE_def)
  have r: "handle_click example_game (90, 30) =
     Inr \<lparr> width = 3, height = 1,
         grid = [[\<lparr>tile_type = POWER_SOURCE, max_rotation = 4, rotation = 0, is_powered = True,
                   used_in_solution = True, power_connection_pattern = Some 0\<rparr>,
                  \<lparr>tile_type = STRAIGHT, max_rotation = 2, rotation = 0, is_powered = False,
                   used_in_solution = False, power_connection_pattern = None\<rparr>,
                  \<lparr>tile_type = LIGHT_BULB, max_rotation = 4, rotation = 3, is_powered = False,
                   used_in_solution = False, power_connection_pattern = None\<rparr>]],
         power_sources = [(0, 0)], bulbs = [(2, 0)], is_solved = False \<rparr>"
    by code_simp
  from handle_click_cases[OF example_game_well_formed example_game_cardinalities refl refl,
      of "(200, 30)"] out
  have "handle_click example_game (200, 30) = Inr example_game" by blast
  moreover have "\<exists>g2 t. handle_click example_game (90, 30) = Inr g2 \<and> \<not> is_solved g2
         \<and> grid_at g2 2 0 = Inr t \<and> \<not> is_powered t"
    unfolding r by (simp add: grid_at_def py_get_def py_position_def)
  ultimately show ?thesis by simp
qed

text \<open>A click outside the grid raises nothing: the call returns with the game
  unchanged.\<close>

theorem handle_click_outside_returns:
  "handle_click example_game (200, 30) = Inr example_game"
  by code_simp

section \<open>The tile invariant, operation by operation\<close>

text \<open>The rotation is below the cardinality of the variant, and a pattern is set exactly
  on a power source.\<close>

definition tile_invariant :: "Tile \<Rightarrow> bool" where
  "tile_invariant t =
     (rotation t < ROTATIONS (tile_type t) \<and>
      (power_connection_pattern t \<noteq> None) = (tile_type t = POWER_SOURCE))"

lemma ROTATIONS_positive: "0 < ROTATIONS tt"
  by (cases tt) simp_all

lemma Tile_init_invariant: "tile_invariant (Tile_init tt rot e)"
proof -
  have "0 < int (ROTATIONS tt)" using ROTATIONS_positive[of tt] by simp
  then have "rot mod int (ROTATIONS tt) < int (ROTATIONS tt)" by (rule pos_mod_bound)
  moreover have "0 \<le> rot mod int (ROTATIONS tt)"
    using \<open>0 < int (ROTATIONS tt)\<close> by (rule pos_mod_sign)
  ultimately have "nat (rot mod int (ROTATIONS tt)) < ROTATIONS tt" by linarith
  then show ?thesis by (simp add: tile_invariant_def Tile_init_def)
qed

lemma Tile_init_cardinality: "max_rotation (Tile_init tt rot e) = ROTATIONS (tile_type (Tile_init tt rot e))"
  by (simp add: Tile_init_def)

lemma rotate_tile_invariant:
  assumes "tile_invariant t" and "max_rotation t = ROTATIONS (tile_type t)"
  shows "tile_invariant (snd (rotate_tile t))"
  using assms by (simp add: tile_invariant_def rotate_tile_def)

lemma flags_invariant:
  "tile_invariant (mark_tile t) = tile_invariant t"
  "tile_invariant (reset_tile t) = tile_invariant t"
  by (simp_all add: tile_invariant_def mark_tile_def reset_tile_def)

lemma source_tile_invariant:
  "tile_invariant ((Tile_init POWER_SOURCE 0 e)\<lparr>power_connection_pattern := Some p\<rparr>)"
  by (simp add: tile_invariant_def Tile_init_def)

lemma randomized_tile_invariant:
  assumes "tile_invariant t"
  shows "tile_invariant (t\<lparr>max_rotation := ROTATIONS (tile_type t),
                           rotation := randint 0 (ROTATIONS (tile_type t) - 1) e\<rparr>)"
  using assms ROTATIONS_positive[of "tile_type t"]
  by (simp add: tile_invariant_def randint_def)

text \<open>The finalizer keeps the invariant of a tile without a pattern whenever it finds a
  connecting neighbour.\<close>

lemma fix_tile_invariant:
  assumes "power_connection_pattern t = None" and "filter P all_directions \<noteq> []"
  shows "tile_invariant (fix_tile t (filter P all_directions))
         \<and> max_rotation (fix_tile t (filter P all_directions))
             = ROTATIONS (tile_type (fix_tile t (filter P all_directions)))"
  using assms
  by (cases "P UP"; cases "P RIGHT"; cases "P DOWN"; cases "P LEFT")
     (simp_all add: all_directions_def fix_tile_def tile_invariant_def)

text \<open>\<open>randomize_rotations\<close> returns on a grid of the right shape and keeps the invariant
  of every tile.\<close>

lemma randomize_cells_invariant:
  assumes "grid_shape g" and "every_tile tile_invariant g"
    and "\<forall>p\<in>set ps. inside g p"
  shows "\<exists>g'. randomize_cells draw g ps = Inr g' \<and> grid_shape g' \<and> every_tile tile_invariant g'
           \<and> width g' = width g \<and> height g' = height g"
  using assms
proof (induction ps arbitrary: g)
  case Nil
  then show ?case by simp
next
  case (Cons p ps)
  obtain x y where p: "p = (x, y)" by (cases p)
  with Cons.prems(3) have v: "is_valid_position g x y" by simp
  note sh = Cons.prems(1)
  note at = grid_at_inside[OF sh v]
  let ?t = "tile_of g (x, y)"
  show ?case
  proof (cases "tile_type ?t \<notin> {EMPTY, POWER_SOURCE}")
    case False
    from Cons.IH[OF Cons.prems(1,2)] Cons.prems(3) obtain g' where
      "randomize_cells draw g ps = Inr g'" "grid_shape g'" "every_tile tile_invariant g'"
      "width g' = width g" "height g' = height g" by auto
    with False p at show ?thesis by simp
  next
    case True
    let ?t' = "?t\<lparr>max_rotation := ROTATIONS (tile_type ?t),
                  rotation := randint 0 (ROTATIONS (tile_type ?t) - 1) (draw (x, y))\<rparr>"
    let ?g1 = "put_tile g (x, y) ?t'"
    have "tile_invariant ?t" using every_tileD[OF Cons.prems(2) sh v] .
    then have "tile_invariant ?t'" by (rule randomized_tile_invariant)
    then have ev1: "every_tile tile_invariant ?g1"
      using Cons.prems(2) by (rule every_tile_put_tile[rotated])
    have sh1: "grid_shape ?g1" using sh by simp
    have in1: "\<forall>p\<in>set ps. inside ?g1 p" using Cons.prems(3) by (simp add: inside_def)
    from Cons.IH[OF sh1 ev1 in1] obtain g' where
      r: "randomize_cells draw ?g1 ps = Inr g'" "grid_shape g'" "every_tile tile_invariant g'"
      "width g' = width ?g1" "height g' = height ?g1" by blast
    have "randomize_cells draw g (p # ps) = Inr g'"
      using True p at set_tile_inside[OF sh v, of ?t'] r(1) by simp
    with r(2-5) show ?thesis by simp
  qed
qed

lemma randomize_rotations_invariant:
  assumes "grid_shape g" and "every_tile tile_invariant g"
  shows "\<exists>g'. randomize_rotations draw g = Inr g' \<and> grid_shape g' \<and> every_tile tile_invariant g'"
proof -
  have "\<forall>p\<in>set (all_positions g). inside g p"
    using all_positions_valid[of _ _ g] by (auto simp: inside_def)
  from randomize_cells_invariant[OF assms this, of draw] show ?thesis
    by (auto simp: randomize_rotations_def)
qed

section \<open>The finalizer on a pipe without connecting neighbours\<close>

definition lone_elbow_game :: PuzzleGame where
  "lone_elbow_game =
     \<lparr> width = 1, height = 1, grid = [[Tile_init ELBOW 3 0]],
       power_sources = [], bulbs = [], is_solved = False \<rparr>"

text \<open>On a pipe without any connecting neighbour the finalizer takes its first branch:
  it sets the variant to Empty and returns, leaving the rotation and the stored cardinality
  as they were. Such a pipe is built by hand here; the growth loop never leaves one, since
  it places every pipe open toward a parent that opens toward it.\<close>

lemma fix_pipe_connections_lone_pipe:
  "tile_invariant (Tile_init ELBOW 3 0)
   \<and> \<not> tile_invariant \<lparr>tile_type = EMPTY, max_rotation = 4, rotation = 3, is_powered = False,
         used_in_solution = False, power_connection_pattern = None\<rparr>
   \<and> rotation (Tile_init ELBOW 3 0) < ROTATIONS (tile_type (Tile_init ELBOW 3 0))
   \<and> max_rotation (Tile_init ELBOW 3 0) = ROTATIONS (tile_type (Tile_init ELBOW 3 0))
   \<and> fix_pipe_connections lone_elbow_game 0 0 =
       Inr (lone_elbow_game\<lparr>grid :=
              [[\<lparr>tile_type = EMPTY, max_rotation = 4, rotation = 3, is_powered = False,
                 used_in_solution = False, power_connection_pattern = None\<rparr>]]\<rparr>)
   \<and> \<not> (3 < ROTATIONS EMPTY)
   \<and> get_connections \<lparr>tile_type = EMPTY, max_rotation = 4, rotation = 3, is_powered = False,
         used_in_solution = False, power_connection_pattern = None\<rparr> = Inl IndexError
   \<and> fst (rotate_tile \<lparr>tile_type = EMPTY, max_rotation = 4, rotation = 3, is_powered = False,
         used_in_solution = False, power_connection_pattern = None\<rparr>)"
  by code_simp

section \<open>The sources the generator places\<close>



lemma mod4_cases: "(e::nat) mod 4 = 0 \<or> e mod 4 = 1 \<or> e mod 4 = 2 \<or> e mod 4 = 3"
  by arith


lemma sources_update_simps [simp]:
  "grid_shape (g\<lparr>power_sources := ps\<rparr>) = grid_shape g"
  "tile_of (g\<lparr>power_sources := ps\<rparr>) p = tile_of g p"
  "inside (g\<lparr>power_sources := ps\<rparr>) p = inside g p"
  "grid_at (g\<lparr>power_sources := ps\<rparr>) x y = grid_at g x y"
  by (simp_all add: grid_shape_def tile_of_def inside_def is_valid_position_def grid_at_def)

lemma inside_put_tile [simp]: "inside (put_tile g p t) q = inside g q"
  by (simp add: inside_def)

lemma place_sources_exhausted: "place_sources draws is [] g = Inr ([], g)"
  by (cases "is") simp_all




section \<open>Generator: growing the connection tree\<close>

text \<open>\<open>random.choice(xs)\<close> returns some element of a non-empty list and raises
  IndexError on an empty one; \<open>e\<close> is the draw, and every element arises from some
  draw.\<close>

definition choice :: "'a list \<Rightarrow> nat \<Rightarrow> error + 'a" where
  "choice xs e = (if xs = [] then Inl IndexError else Inr (xs ! (e mod length xs)))"

text \<open>\<open>random.choices(pipe_types, weights=pipe_weights)[0]\<close>: all four weights are
  positive, so each of the four pipe variants can be returned.\<close>

definition choose_pipe :: "nat \<Rightarrow> TileType" where
  "choose_pipe e = [STRAIGHT, ELBOW, T_JUNCTION, CROSS] ! (e mod 4)"

text \<open>The loop that collects \<open>possible_connections\<close> of the picked frontier cell.\<close>

fun possible_connections ::
  "PuzzleGame \<Rightarrow> (int \<times> int) set \<Rightarrow> int \<Rightarrow> int \<Rightarrow> Direction list
     \<Rightarrow> (Direction \<times> int \<times> int) list" where
  "possible_connections g connected x y [] = []"
| "possible_connections g connected x y (direction # ds) =
     (case get_neighbor_position x y direction of
        (nx, ny) \<Rightarrow>
          if is_valid_position g nx ny \<and> (nx, ny) \<notin> connected
          then (direction, nx, ny) # possible_connections g connected x y ds
          else possible_connections g connected x y ds)"

text \<open>The rotation of a bulb that faces \<open>opposite_dir\<close>.\<close>

definition bulb_rotation :: "Direction \<Rightarrow> int" where
  "bulb_rotation opposite_dir =
     (if opposite_dir = UP then 0
      else if opposite_dir = RIGHT then 1
      else if opposite_dir = DOWN then 2
      else if opposite_dir = LEFT then 3
      else 0)"

text \<open>The loop \<open>for rot in range(ROTATIONS[pipe_type])\<close> that tries each rotation on the
  new tile and keeps those open toward \<open>opposite_dir\<close>.\<close>

fun valid_rotations :: "Tile \<Rightarrow> Direction \<Rightarrow> nat list \<Rightarrow> error + nat list" where
  "valid_rotations t opposite_dir [] = Inr []"
| "valid_rotations t opposite_dir (rot # rots) =
     (case is_connected_to (t\<lparr>rotation := rot\<rparr>) opposite_dir of
        Inl e \<Rightarrow> Inl e
      | Inr c \<Rightarrow>
          (case valid_rotations t opposite_dir rots of
             Inl e \<Rightarrow> Inl e
           | Inr vs \<Rightarrow> Inr (if c then rot # vs else vs)))"

text \<open>The pipe tile placed at the new cell: \<open>Tile(pipe_type)\<close>, left by the loop at the
  last rotation tried, then set to a chosen valid rotation when there is one. \<open>e\<close> is the
  draw of \<open>random.choice(valid_rotations)\<close>.\<close>

definition grow_pipe :: "TileType \<Rightarrow> Direction \<Rightarrow> nat \<Rightarrow> error + Tile" where
  "grow_pipe pipe_type opposite_dir e =
     (case valid_rotations (Tile_init pipe_type 0 0) opposite_dir [0..<ROTATIONS pipe_type] of
        Inl err \<Rightarrow> Inl err
      | Inr vs \<Rightarrow>
          if vs \<noteq> []
          then (case choice vs e of
                  Inl err \<Rightarrow> Inl err
                | Inr r \<Rightarrow> Inr ((Tile_init pipe_type 0 0)\<lparr>rotation := r\<rparr>))
          else Inr ((Tile_init pipe_type 0 0)\<lparr>rotation := ROTATIONS pipe_type - 1\<rparr>))"

text \<open>The variables of the growth loop.\<close>

record growth =
  game :: PuzzleGame
  connected :: "(int \<times> int) set"
  frontier :: "(int \<times> int) list"
  available_positions :: "(int \<times> int) list"
  bulb_positions :: "(int \<times> int) list"

text \<open>The five draws of one iteration: the frontier cell, the connection, whether
  \<open>random.random() < 0.3\<close>, the pipe variant and the rotation.\<close>

type_synonym growth_draw = "nat \<times> nat \<times> bool \<times> nat \<times> nat"

text \<open>The body of the growth loop.\<close>

definition grow_step :: "int \<Rightarrow> growth_draw \<Rightarrow> growth \<Rightarrow> error + growth" where
  "grow_step n_bulbs draw s =
     (case draw of
        (e_cell, e_conn, below_chance, e_pipe, e_rot) \<Rightarrow>
          (case choice (frontier s) e_cell of
             Inl e \<Rightarrow> Inl e
           | Inr (x, y) \<Rightarrow>
               (case grid_at (game s) x y of
                  Inl e \<Rightarrow> Inl e
                | Inr current_tile \<Rightarrow>
                    (case get_connections current_tile of
                       Inl e \<Rightarrow> Inl e
                     | Inr cs \<Rightarrow>
                         if possible_connections (game s) (connected s) x y cs = []
                         then Inr (s\<lparr>frontier := remove1 (x, y) (frontier s)\<rparr>)
                         else
                           (case choice (possible_connections (game s) (connected s) x y cs) e_conn of
                              Inl e \<Rightarrow> Inl e
                            | Inr (direction, nx, ny) \<Rightarrow>
                                (let s1 = s\<lparr>connected := insert (nx, ny) (connected s),
                                            available_positions :=
                                              (if (nx, ny) \<in> set (available_positions s)
                                               then remove1 (nx, ny) (available_positions s)
                                               else available_positions s),
                                            frontier := frontier s @ [(nx, ny)]\<rparr>;
                                     opposite_dir = get_opposite_direction direction
                                 in if int (length (bulb_positions s)) < n_bulbs \<and> below_chance
                                    then
                                      (case set_tile (game s) nx ny
                                              (Tile_init LIGHT_BULB (bulb_rotation opposite_dir) 0) of
                                         Inl e \<Rightarrow> Inl e
                                       | Inr g' \<Rightarrow>
                                           Inr (s1\<lparr>game := g'\<lparr>bulbs := bulbs g' @ [(nx, ny)]\<rparr>,
                                                   bulb_positions := bulb_positions s @ [(nx, ny)]\<rparr>))
                                    else
                                      (case grow_pipe (choose_pipe e_pipe) opposite_dir e_rot of
                                         Inl e \<Rightarrow> Inl e
                                       | Inr t \<Rightarrow>
                                           (case set_tile (game s) nx ny t of
                                              Inl e \<Rightarrow> Inl e
                                            | Inr g' \<Rightarrow> Inr (s1\<lparr>game := g'\<rparr>)))))))))"

text \<open>The guard of the growth loop.\<close>

definition growing :: "int \<Rightarrow> growth \<Rightarrow> bool" where
  "growing n_bulbs s =
     (int (length (bulb_positions s)) < n_bulbs \<and> frontier s \<noteq> []
      \<and> available_positions s \<noteq> [])"

definition growth_measure :: "growth \<Rightarrow> nat" where
  "growth_measure s =
     2 * card (valid_positions (game s) - connected s) + length (frontier s)"

lemma choice_member: "choice xs e = Inr x \<Longrightarrow> x \<in> set xs"
  by (auto simp: choice_def split: if_splits)

lemma choice_defined: "xs \<noteq> [] \<Longrightarrow> \<exists>x. choice xs e = Inr x \<and> x \<in> set xs"
  by (simp add: choice_def)

lemma possible_connections_member:
  "(d, nx, ny) \<in> set (possible_connections g cn x y ds) \<Longrightarrow>
   d \<in> set ds \<and> get_neighbor_position x y d = (nx, ny) \<and> is_valid_position g nx ny
   \<and> (nx, ny) \<notin> cn"
  by (induction ds) (auto split: prod.splits if_splits)

lemma valid_positions_fields:
  "width g' = width g \<Longrightarrow> height g' = height g \<Longrightarrow> valid_positions g' = valid_positions g"
  by (simp add: valid_positions_def is_valid_position_def)

lemma newly_connected_card:
  assumes "is_valid_position g nx ny" and "(nx, ny) \<notin> cn"
  shows "card (valid_positions g - insert (nx, ny) cn) + 1
         = card (valid_positions g - cn)"
proof -
  have v: "(nx, ny) \<in> valid_positions g - cn"
    using assms by (simp add: valid_positions_def)
  have fin: "finite (valid_positions g - cn)" using finite_valid_positions by simp
  have eq: "valid_positions g - insert (nx, ny) cn
            = (valid_positions g - cn) - {(nx, ny)}" by auto
  show ?thesis unfolding eq using v fin by (metis Suc_eq_plus1 card_Suc_Diff1)
qed

lemma grow_step_measure:
  assumes "grow_step n_bulbs draw s = Inr s'"
  shows "growth_measure s' < growth_measure s"
proof -
  obtain e_cell e_conn below_chance e_pipe e_rot where
    d: "draw = (e_cell, e_conn, below_chance, e_pipe, e_rot)" by (cases draw)
  from assms d obtain x y current_tile cs where
    c: "choice (frontier s) e_cell = Inr (x, y)"
    and "grid_at (game s) x y = Inr current_tile"
    and "get_connections current_tile = Inr cs"
    by (auto simp: grow_step_def split: sum.splits prod.splits)
  note rest = this(2,3)
  let ?pcs = "possible_connections (game s) (connected s) x y cs"
  show ?thesis
  proof (cases "?pcs = []")
    case True
    with assms d c rest have s': "s' = s\<lparr>frontier := remove1 (x, y) (frontier s)\<rparr>"
      by (simp add: grow_step_def)
    from choice_member[OF c] have "length (remove1 (x, y) (frontier s)) < length (frontier s)"
      by (simp add: length_remove1) (cases "frontier s", auto)
    then show ?thesis unfolding s' by (simp add: growth_measure_def)
  next
    case False
    with assms d c rest obtain direction nx ny where
      p: "choice ?pcs e_conn = Inr (direction, nx, ny)"
      by (auto simp: grow_step_def split: sum.splits prod.splits)
    from possible_connections_member[OF choice_member[OF p]]
    have v: "is_valid_position (game s) nx ny" and nc: "(nx, ny) \<notin> connected s" by simp_all
    from assms d c rest False p
    have "connected s' = insert (nx, ny) (connected s) \<and> frontier s' = frontier s @ [(nx, ny)]
          \<and> valid_positions (game s') = valid_positions (game s)"
      by (auto simp: grow_step_def Let_def split: sum.splits if_splits
          dest!: set_tile_width_height intro!: valid_positions_fields)
    with newly_connected_card[OF v nc] show ?thesis by (simp add: growth_measure_def)
  qed
qed

text \<open>The growth loop; \<open>draws i\<close> are the draws of iteration \<open>i\<close>.\<close>

function grow :: "int \<Rightarrow> (nat \<Rightarrow> growth_draw) \<Rightarrow> nat \<Rightarrow> growth \<Rightarrow> error + growth" where
  "grow n_bulbs draws i s =
     (if growing n_bulbs s
      then (case grow_step n_bulbs (draws i) s of
              Inl e \<Rightarrow> Inl e
            | Inr s' \<Rightarrow> grow n_bulbs draws (Suc i) s')
      else Inr s)"
  by pat_completeness auto
termination
  by (relation "measure (\<lambda>(n_bulbs, draws, i, s). growth_measure s)")
     (auto dest: grow_step_measure)

section \<open>Generator: the whole of \<open>generate_puzzle\<close>\<close>

text \<open>\<open>all(self.grid[y][x].used_in_solution for x, y in power_source_positions)\<close>.\<close>

fun all_sources_used :: "PuzzleGame \<Rightarrow> (int \<times> int) list \<Rightarrow> error + bool" where
  "all_sources_used g [] = Inr True"
| "all_sources_used g ((x, y) # rest) =
     (case grid_at g x y of
        Inl e \<Rightarrow> Inl e
      | Inr t \<Rightarrow> if used_in_solution t then all_sources_used g rest else Inr False)"

text \<open>The loop \<open>for _ in range(3)\<close> that finalizes and solves again while some source is
  unused.\<close>

fun repair :: "nat \<Rightarrow> (int \<times> int) list \<Rightarrow> PuzzleGame \<Rightarrow> error + PuzzleGame" where
  "repair 0 power_source_positions g = Inr g"
| "repair (Suc n) power_source_positions g =
     (case all_sources_used g power_source_positions of
        Inl e \<Rightarrow> Inl e
      | Inr used \<Rightarrow>
          if \<not> used
          then
            (case finalize_puzzle g of
               Inl e \<Rightarrow> Inl e
             | Inr g1 \<Rightarrow>
                 (case update_power_flow g1 of
                    Inl e \<Rightarrow> Inl e
                  | Inr (solved, g2) \<Rightarrow> repair n power_source_positions g2))
          else repair n power_source_positions g)"

text \<open>\<open>generate_puzzle\<close>. The random draws are arguments: the shuffled cells, the draws
  of the source placement, of the growth loop and of \<open>randomize_rotations\<close>.\<close>

definition generate_puzzle ::
  "PuzzleGame \<Rightarrow> int \<Rightarrow> (int \<times> int) list \<Rightarrow> (nat \<Rightarrow> nat \<times> nat \<times> nat)
     \<Rightarrow> (nat \<Rightarrow> growth_draw) \<Rightarrow> (int \<times> int \<Rightarrow> nat) \<Rightarrow> error + PuzzleGame" where
  "generate_puzzle g difficulty shuffled source_draws growth_draws rotation_draws =
     (case generate_puzzle_sources g difficulty shuffled source_draws of
        Inl e \<Rightarrow> Inl e
      | Inr (available, g1) \<Rightarrow>
          (case grow (num_bulbs difficulty) growth_draws 0
                  \<lparr> game = g1, connected = set (power_sources g1),
                    frontier = power_sources g1, available_positions = available,
                    bulb_positions = [] \<rparr> of
             Inl e \<Rightarrow> Inl e
           | Inr s \<Rightarrow>
               (case finalize_puzzle (game s) of
                  Inl e \<Rightarrow> Inl e
                | Inr g3 \<Rightarrow>
                    (case update_power_flow g3 of
                       Inl e \<Rightarrow> Inl e
                     | Inr (solved, g4) \<Rightarrow>
                         (case repair 3 (power_sources g4) g4 of
                            Inl e \<Rightarrow> Inl e
                          | Inr g5 \<Rightarrow>
                              (case randomize_rotations rotation_draws g5 of
                                 Inl e \<Rightarrow> Inl e
                               | Inr g6 \<Rightarrow>
                                   (case update_power_flow g6 of
                                      Inl e \<Rightarrow> Inl e
                                    | Inr (solved', g7) \<Rightarrow> Inr g7)))))))"

section \<open>Sound tiles and anchored pipes\<close>

text \<open>A sound tile satisfies the invariant, stores the cardinality of its variant, and
  has its connections defined.\<close>

definition sound_tile :: "Tile \<Rightarrow> bool" where
  "sound_tile t =
     (tile_invariant t \<and> max_rotation t = ROTATIONS (tile_type t) \<and> connections_defined t)"

definition is_pipe :: "TileType \<Rightarrow> bool" where
  "is_pipe tt = (tt \<notin> {POWER_SOURCE, LIGHT_BULB, EMPTY})"

text \<open>Every pipe of the grid has a reciprocally open edge to some neighbour.\<close>

definition anchored :: "PuzzleGame \<Rightarrow> bool" where
  "anchored g =
     (\<forall>c. inside g c \<and> is_pipe (tile_type (tile_of g c)) \<longrightarrow> (\<exists>q. linked g c q))"

lemma every_tile_iff:
  assumes "grid_shape g"
  shows "every_tile P g \<longleftrightarrow> (\<forall>c. inside g c \<longrightarrow> P (tile_of g c))"
proof
  assume e: "every_tile P g"
  show "\<forall>c. inside g c \<longrightarrow> P (tile_of g c)"
  proof (intro allI impI)
    fix c assume "inside g c"
    then have "is_valid_position g (fst c) (snd c)" by (simp add: inside_def)
    from every_tileD[OF e assms this] show "P (tile_of g c)" by simp
  qed
next
  assume a: "\<forall>c. inside g c \<longrightarrow> P (tile_of g c)"
  have "P t" if "row \<in> set (grid g)" and "t \<in> set row" for row t
  proof -
    from that(1) obtain j where j: "j < length (grid g)" "row = grid g ! j"
      by (auto simp: in_set_conv_nth)
    from that(2) obtain i where i: "i < length row" "t = row ! i"
      by (auto simp: in_set_conv_nth)
    from assms that(1) have "length row = width g" by (simp add: grid_shape_def)
    with i j assms have "inside g (int i, int j)"
      by (simp add: inside_def is_valid_position_def grid_shape_def)
    with a have "P (tile_of g (int i, int j))" by blast
    then show ?thesis using i j by (simp add: tile_of_def)
  qed
  then show "every_tile P g" by (simp add: every_tile_def)
qed

lemma sound_tile_defined: "sound_tile t \<Longrightarrow> connections_defined t"
  by (simp add: sound_tile_def)

lemma sound_tile_invariant: "sound_tile t \<Longrightarrow> tile_invariant t"
  by (simp add: sound_tile_def)

lemma every_sound_defined: "every_tile sound_tile g \<Longrightarrow> every_tile connections_defined g"
  by (simp add: every_tile_def sound_tile_def)

lemma every_sound_invariant: "every_tile sound_tile g \<Longrightarrow> every_tile tile_invariant g"
  by (simp add: every_tile_def sound_tile_def)

lemma plain_tile_defined:
  assumes "tile_invariant t" and "tile_type t \<noteq> POWER_SOURCE"
  shows "connections_defined t"
  using assms
  by (simp add: tile_invariant_def connections_defined_def get_connections_def list_index_def
      length_CONNECTION_MAPS)

lemma sound_empty_closed:
  assumes "sound_tile t" and "tile_type t = EMPTY"
  shows "open_directions t = []"
  using assms
  by (simp add: sound_tile_def tile_invariant_def open_directions_def get_connections_def
      list_index_def)

lemma Tile_init_sound: "tt \<noteq> POWER_SOURCE \<Longrightarrow> sound_tile (Tile_init tt rot e)"
  using Tile_init_invariant[of tt rot e] plain_tile_defined[of "Tile_init tt rot e"]
  by (simp add: sound_tile_def Tile_init_def)

lemma same_but_flags_connections:
  "same_but_flags t t' \<Longrightarrow> get_connections t' = get_connections t"
  by (subst same_but_flags_eq[of t t']) simp_all

lemma same_but_flags_sound:
  assumes "same_but_flags t t'" and "sound_tile t"
  shows "sound_tile t'"
  using assms same_but_flags_connections[OF assms(1)]
  by (simp add: sound_tile_def tile_invariant_def connections_defined_def same_but_flags_def)

lemma neighbor_back:
  "get_neighbor_position x y d = (nx, ny) \<Longrightarrow>
   get_neighbor_position nx ny (get_opposite_direction d) = (x, y)"
  by (cases d) auto

lemma opposite_twice [simp]: "get_opposite_direction (get_opposite_direction d) = d"
  by (cases d) simp_all

lemma neighbor_differs: "get_neighbor_position x y d \<noteq> (x, y)"
  by (cases d) simp_all

lemma linked_sym: "linked g p q \<Longrightarrow> linked g q p"
proof -
  assume l: "linked g p q"
  then obtain d where d: "d \<in> set (open_directions (tile_of g p))"
    "get_neighbor_position (fst p) (snd p) d = q"
    "get_opposite_direction d \<in> set (open_directions (tile_of g q))"
    by (auto simp: linked_def)
  from d(2) have "get_neighbor_position (fst q) (snd q) (get_opposite_direction d) = p"
    using neighbor_back[of "fst p" "snd p" d "fst q" "snd q"] by simp
  with l d(1,3) show ?thesis unfolding linked_def by (intro conjI bexI[of _ "get_opposite_direction d"]) simp_all
qed


lemma linked_local:
  assumes "width g' = width g" and "height g' = height g"
    and "open_directions (tile_of g' p) = open_directions (tile_of g p)"
    and "open_directions (tile_of g' q) = open_directions (tile_of g q)"
  shows "linked g' p q = linked g p q"
  using assms by (simp add: linked_def is_valid_position_def)

lemma linked_open:
  "linked g p q \<Longrightarrow> open_directions (tile_of g p) \<noteq> [] \<and> open_directions (tile_of g q) \<noteq> []
     \<and> inside g p \<and> inside g q \<and> p \<noteq> q"
proof -
  assume l: "linked g p q"
  then obtain d where d: "d \<in> set (open_directions (tile_of g p))"
    "get_neighbor_position (fst p) (snd p) d = q"
    "get_opposite_direction d \<in> set (open_directions (tile_of g q))"
    by (auto simp: linked_def)
  have "p \<noteq> q" using d(2) neighbor_differs[of "fst p" "snd p" d] by auto
  with l d(1,3) show ?thesis by (auto simp: linked_def inside_def)
qed

lemma valid_rotations_result:
  assumes "\<forall>rot\<in>set rots. connections_defined (t\<lparr>rotation := rot\<rparr>)"
  shows "valid_rotations t opposite_dir rots
         = Inr (filter (\<lambda>rot. opposite_dir \<in> set (open_directions (t\<lparr>rotation := rot\<rparr>))) rots)"
  using assms
  by (induction rots) (simp_all add: is_connected_to_open_directions)

lemma pipe_rotation_exists:
  assumes "is_pipe tt"
  shows "\<exists>rot<ROTATIONS tt. d \<in> set (CONNECTION_MAPS tt ! rot)"
proof -
  have "(\<exists>rot\<in>{0, 1, 2, 3}. rot < ROTATIONS tt \<and> d \<in> set (CONNECTION_MAPS tt ! rot))"
    using assms by (cases tt; cases d) (simp_all add: is_pipe_def)
  then show ?thesis by blast
qed

lemma choose_pipe_is_pipe: "is_pipe (choose_pipe e)"
  using mod4_cases[of e] by (auto simp: choose_pipe_def is_pipe_def)

lemma pipe_at_rotation:
  assumes "is_pipe tt" and "rot < ROTATIONS tt"
  shows "sound_tile ((Tile_init tt 0 0)\<lparr>rotation := rot\<rparr>)"
    and "open_directions ((Tile_init tt 0 0)\<lparr>rotation := rot\<rparr>) = CONNECTION_MAPS tt ! rot"
    and "tile_type ((Tile_init tt 0 0)\<lparr>rotation := rot\<rparr>) = tt"
  using assms
  by (simp_all add: sound_tile_def tile_invariant_def Tile_init_def is_pipe_def
      connections_defined_def open_directions_def get_connections_def list_index_def
      length_CONNECTION_MAPS)

text \<open>The pipe the growth step places is sound and open toward its parent.\<close>

lemma grow_pipe_result:
  assumes "is_pipe tt"
  shows "\<exists>t. grow_pipe tt opposite_dir e = Inr t \<and> sound_tile t \<and> tile_type t = tt
           \<and> opposite_dir \<in> set (open_directions t)"
proof -
  let ?t0 = "Tile_init tt 0 0"
  let ?ok = "\<lambda>rot. opposite_dir \<in> set (open_directions (?t0\<lparr>rotation := rot\<rparr>))"
  have def: "\<forall>rot\<in>set [0..<ROTATIONS tt]. connections_defined (?t0\<lparr>rotation := rot\<rparr>)"
    using pipe_at_rotation(1)[OF assms] by (simp add: sound_tile_def)
  note vr = valid_rotations_result[OF def, of opposite_dir]
  let ?vs = "filter ?ok [0..<ROTATIONS tt]"
  from pipe_rotation_exists[OF assms, of opposite_dir] obtain r0 where
    "r0 < ROTATIONS tt" "opposite_dir \<in> set (CONNECTION_MAPS tt ! r0)" by blast
  then have "r0 \<in> set ?vs" using pipe_at_rotation(2)[OF assms] by simp
  then have ne: "?vs \<noteq> []" by (metis empty_iff list.set(1))
  from choice_defined[OF ne, of e] obtain r where
    r: "choice ?vs e = Inr r" "r \<in> set ?vs" by blast
  then have rb: "r < ROTATIONS tt" and ro: "?ok r" by simp_all
  have "grow_pipe tt opposite_dir e = Inr (?t0\<lparr>rotation := r\<rparr>)"
    using vr ne r(1) by (simp add: grow_pipe_def)
  with pipe_at_rotation(1,3)[OF assms rb] ro show ?thesis by simp
qed

section \<open>The growth loop keeps tiles sound and pipes anchored\<close>

text \<open>The state of the generator between two steps: a grid of sound tiles with anchored
  pipes, where every cell not yet connected is Empty, the frontier is connected, and the
  connected cells, the sources and the bulbs are inside the grid.\<close>

definition grown :: "PuzzleGame \<Rightarrow> (int \<times> int) set \<Rightarrow> bool" where
  "grown g cn =
     (grid_shape g \<and> every_tile sound_tile g \<and> anchored g \<and>
      (\<forall>c. inside g c \<and> c \<notin> cn \<longrightarrow> tile_type (tile_of g c) = EMPTY) \<and>
      (\<forall>c\<in>cn. inside g c) \<and>
      (\<forall>c\<in>set (power_sources g). inside g c) \<and>
      (\<forall>c\<in>set (bulbs g). inside g c))"

lemma anchored_fields:
  "anchored (g\<lparr>bulbs := bs\<rparr>) = anchored g"
  "anchored (g\<lparr>power_sources := ps\<rparr>) = anchored g"
  by (simp_all add: anchored_def inside_def is_valid_position_def tile_of_def linked_def)

lemma bulbs_update_simps [simp]:
  "grid_shape (g\<lparr>bulbs := bs\<rparr>) = grid_shape g"
  "tile_of (g\<lparr>bulbs := bs\<rparr>) p = tile_of g p"
  "inside (g\<lparr>bulbs := bs\<rparr>) p = inside g p"
  "every_tile P (g\<lparr>bulbs := bs\<rparr>) = every_tile P g"
  "every_tile P (g\<lparr>power_sources := ps\<rparr>) = every_tile P g"
  by (simp_all add: grid_shape_def tile_of_def inside_def is_valid_position_def every_tile_def)

text \<open>A sound tile placed on an Empty cell, open toward a neighbour that opens toward it
  when it is a pipe, keeps the state.\<close>

lemma grown_place:
  assumes gr: "grown g cn" and n: "inside g n" "n \<notin> cn" and t: "sound_tile t"
    and link: "is_pipe (tile_type t) \<longrightarrow>
                 (\<exists>d. d \<in> set (open_directions t) \<and>
                      inside g (get_neighbor_position (fst n) (snd n) d) \<and>
                      get_opposite_direction d
                        \<in> set (open_directions (tile_of g (get_neighbor_position (fst n) (snd n) d))))"
  shows "grown (put_tile g n t) (insert n cn)"
proof -
  let ?g' = "put_tile g n t"
  from gr have sh: "grid_shape g" and ev: "every_tile sound_tile g" and an: "anchored g"
    and em: "\<forall>c. inside g c \<and> c \<notin> cn \<longrightarrow> tile_type (tile_of g c) = EMPTY"
    and ci: "\<forall>c\<in>cn. inside g c"
    and si: "\<forall>c\<in>set (power_sources g). inside g c"
    and bi: "\<forall>c\<in>set (bulbs g). inside g c"
    by (simp_all add: grown_def)
  have tile: "tile_of ?g' c = (if c = n then t else tile_of g c)" if "inside g c" for c
    using tile_of_put_tile_inside[OF sh n(1) that] .
  have ins: "inside ?g' c = inside g c" for c by (simp add: inside_def)
  have old_n: "open_directions (tile_of g n) = []"
  proof -
    from em n have "tile_type (tile_of g n) = EMPTY" by blast
    moreover have "sound_tile (tile_of g n)"
      using ev n(1) every_tile_iff[OF sh] by blast
    ultimately show ?thesis by (rule sound_empty_closed[rotated])
  qed
  have keep: "linked ?g' c q" if l: "linked g c q" for c q
  proof -
    from linked_open[OF l] old_n have "c \<noteq> n" "q \<noteq> n" "inside g c" "inside g q" by auto
    then have "open_directions (tile_of ?g' c) = open_directions (tile_of g c)"
      "open_directions (tile_of ?g' q) = open_directions (tile_of g q)"
      using tile by simp_all
    from linked_local[OF _ _ this] l show ?thesis by simp
  qed
  have an': "anchored ?g'"
    unfolding anchored_def
  proof (intro allI impI)
    fix c assume h: "inside ?g' c \<and> is_pipe (tile_type (tile_of ?g' c))"
    then have c0: "inside g c" using ins by simp
    show "\<exists>q. linked ?g' c q"
    proof (cases "c = n")
      case False
      with h tile[OF c0] have "is_pipe (tile_type (tile_of g c))" by simp
      with an c0 obtain q where "linked g c q" unfolding anchored_def by blast
      then show ?thesis using keep by blast
    next
      case True
      with h tile[OF n(1)] have "is_pipe (tile_type t)" by simp
      with link obtain d where d: "d \<in> set (open_directions t)"
        "inside g (get_neighbor_position (fst n) (snd n) d)"
        "get_opposite_direction d
           \<in> set (open_directions (tile_of g (get_neighbor_position (fst n) (snd n) d)))"
        by blast
      let ?q = "get_neighbor_position (fst n) (snd n) d"
      have qn: "?q \<noteq> n" using neighbor_differs[of "fst n" "snd n" d] by simp
      have "linked ?g' n ?q"
        unfolding linked_def
        using d n(1) qn tile[OF n(1)] tile[OF d(2)]
        by (auto simp: inside_def intro!: bexI[of _ d])
      with True show ?thesis by blast
    qed
  qed
  have ev': "every_tile sound_tile ?g'" using ev t by (rule every_tile_put_tile)
  have em': "\<forall>c. inside ?g' c \<and> c \<notin> insert n cn \<longrightarrow> tile_type (tile_of ?g' c) = EMPTY"
    using em tile ins by auto
  show ?thesis
    unfolding grown_def using sh ev' an' em' ci si bi n(1) ins by simp
qed

lemma grown_frame:
  "grown g cn \<Longrightarrow> \<forall>c\<in>set bs. inside g c \<Longrightarrow> grown (g\<lparr>bulbs := bs\<rparr>) cn"
  by (simp add: grown_def anchored_fields)

text \<open>One step of the growth loop returns and keeps the state.\<close>

lemma grow_step_grown:
  assumes gr: "grown (game s) (connected s)" and fr: "set (frontier s) \<subseteq> connected s"
    and go: "growing n_bulbs s"
  shows "\<exists>s'. grow_step n_bulbs draw s = Inr s' \<and> grown (game s') (connected s')
           \<and> set (frontier s') \<subseteq> connected s'
           \<and> width (game s') = width (game s) \<and> height (game s') = height (game s)
           \<and> power_sources (game s') = power_sources (game s)"
proof -
  let ?g = "game s"
  obtain e_cell e_conn below_chance e_pipe e_rot where
    d: "draw = (e_cell, e_conn, below_chance, e_pipe, e_rot)" by (cases draw)
  from gr have sh: "grid_shape ?g" and ev: "every_tile sound_tile ?g"
    and ci: "\<forall>c\<in>connected s. inside ?g c" and bi: "\<forall>c\<in>set (bulbs ?g). inside ?g c"
    by (simp_all add: grown_def)
  from go have "frontier s \<noteq> []" by (simp add: growing_def)
  from choice_defined[OF this, of e_cell] obtain c where
    c: "choice (frontier s) e_cell = Inr c" "c \<in> set (frontier s)" by blast
  obtain x y where xy: "c = (x, y)" by (cases c)
  from c(2) fr have cc: "(x, y) \<in> connected s" unfolding xy by blast
  with ci have "inside ?g (x, y)" by blast
  then have cv: "is_valid_position ?g x y" by simp
  note at = grid_at_inside[OF sh cv]
  have "sound_tile (tile_of ?g (x, y))" using every_tileD[OF ev sh cv] .
  note gc = get_connections_open_directions[OF sound_tile_defined[OF this]]
  let ?cs = "open_directions (tile_of ?g (x, y))"
  let ?pcs = "possible_connections ?g (connected s) x y ?cs"
  show ?thesis
  proof (cases "?pcs = []")
    case True
    then have "grow_step n_bulbs draw s = Inr (s\<lparr>frontier := remove1 (x, y) (frontier s)\<rparr>)"
      using d c(1) xy at gc by (simp add: grow_step_def)
    moreover have "set (remove1 (x, y) (frontier s)) \<subseteq> connected s"
      using fr set_remove1_subset by fastforce
    ultimately show ?thesis using gr by simp
  next
    case False
    from choice_defined[OF False, of e_conn] obtain pc where
      pc: "choice ?pcs e_conn = Inr pc" "pc \<in> set ?pcs" by blast
    obtain dir nx ny where pcd: "pc = (dir, nx, ny)" by (cases pc)
    from possible_connections_member[OF pc(2)[unfolded pcd]]
    have dm: "dir \<in> set ?cs" and nb: "get_neighbor_position x y dir = (nx, ny)"
      and nv: "is_valid_position ?g nx ny" and nc: "(nx, ny) \<notin> connected s" by simp_all
    let ?opp = "get_opposite_direction dir"
    have rev: "get_neighbor_position nx ny ?opp = (x, y)" using neighbor_back[OF nb] .
    let ?s1 = "s\<lparr>connected := insert (nx, ny) (connected s),
                   available_positions :=
                     (if (nx, ny) \<in> set (available_positions s)
                      then remove1 (nx, ny) (available_positions s)
                      else available_positions s),
                   frontier := frontier s @ [(nx, ny)]\<rparr>"
    have fr1: "set (frontier s @ [(nx, ny)]) \<subseteq> insert (nx, ny) (connected s)"
      using fr by auto
    show ?thesis
    proof (cases "int (length (bulb_positions s)) < n_bulbs \<and> below_chance")
      case True
      let ?t = "Tile_init LIGHT_BULB (bulb_rotation ?opp) 0"
      let ?g' = "put_tile ?g (nx, ny) ?t"
      have st: "set_tile ?g nx ny ?t = Inr ?g'" using set_tile_inside[OF sh nv] .
      have "sound_tile ?t" by (rule Tile_init_sound) simp
      moreover have "\<not> is_pipe (tile_type ?t)" by (simp add: is_pipe_def Tile_init_def)
      ultimately have g1: "grown ?g' (insert (nx, ny) (connected s))"
        using grown_place[OF gr, of "(nx, ny)" ?t] nv nc by simp
      have "\<forall>c\<in>set (bulbs ?g' @ [(nx, ny)]). inside ?g' c"
        using bi nv by (auto simp: inside_def)
      from grown_frame[OF g1 this]
      have g2: "grown (?g'\<lparr>bulbs := bulbs ?g' @ [(nx, ny)]\<rparr>) (insert (nx, ny) (connected s))" .
      have "grow_step n_bulbs draw s =
              Inr (?s1\<lparr>game := ?g'\<lparr>bulbs := bulbs ?g' @ [(nx, ny)]\<rparr>,
                       bulb_positions := bulb_positions s @ [(nx, ny)]\<rparr>)"
        using d c(1) xy at gc False pc(1) pcd True st by (simp add: grow_step_def Let_def)
      with g2 fr1 show ?thesis by simp
    next
      case nb_case: False
      from grow_pipe_result[OF choose_pipe_is_pipe, of e_pipe ?opp e_rot] obtain t where
        t: "grow_pipe (choose_pipe e_pipe) ?opp e_rot = Inr t" "sound_tile t"
        "?opp \<in> set (open_directions t)" by blast
      let ?g' = "put_tile ?g (nx, ny) t"
      have st: "set_tile ?g nx ny t = Inr ?g'" using set_tile_inside[OF sh nv] .
      have "\<exists>d. d \<in> set (open_directions t) \<and>
                inside ?g (get_neighbor_position (fst (nx, ny)) (snd (nx, ny)) d) \<and>
                get_opposite_direction d
                  \<in> set (open_directions
                          (tile_of ?g (get_neighbor_position (fst (nx, ny)) (snd (nx, ny)) d)))"
        using t(3) rev cv dm by (intro exI[of _ ?opp]) simp
      then have g1: "grown ?g' (insert (nx, ny) (connected s))"
        using grown_place[OF gr, of "(nx, ny)" t] nv nc t(2) by simp
      have "grow_step n_bulbs draw s = Inr (?s1\<lparr>game := ?g'\<rparr>)"
        using d c(1) xy at gc False pc(1) pcd nb_case t(1) st
        by (auto simp: grow_step_def Let_def)
      with g1 fr1 show ?thesis by simp
    qed
  qed
qed

lemma grow_grown:
  "grown (game s) (connected s) \<Longrightarrow> set (frontier s) \<subseteq> connected s \<Longrightarrow>
   \<exists>s'. grow n_bulbs draws i s = Inr s' \<and> grown (game s') (connected s')
        \<and> width (game s') = width (game s) \<and> height (game s') = height (game s)
        \<and> power_sources (game s') = power_sources (game s)"
proof (induction n_bulbs draws i s rule: grow.induct)
  case (1 n_bulbs draws i s)
  show ?case
  proof (cases "growing n_bulbs s")
    case False
    with "1.prems" show ?thesis by simp
  next
    case True
    from grow_step_grown[OF "1.prems" True, of "draws i"] obtain s1 where
      s1: "grow_step n_bulbs (draws i) s = Inr s1" "grown (game s1) (connected s1)"
      "set (frontier s1) \<subseteq> connected s1"
      "width (game s1) = width (game s)" "height (game s1) = height (game s)"
      "power_sources (game s1) = power_sources (game s)" by blast
    from "1.IH"[OF True s1(1) s1(2,3)] obtain s' where
      "grow n_bulbs draws (Suc i) s1 = Inr s'" "grown (game s') (connected s')"
      "width (game s') = width (game s1)" "height (game s') = height (game s1)"
      "power_sources (game s') = power_sources (game s1)" by blast
    with True s1 show ?thesis by simp
  qed
qed

section \<open>The source placement starts the growth in a sound state\<close>

lemma choose_source_type_bound: "choose_source_type c e < 13"
  using mod4_cases[of e] by (auto simp: choose_source_type_def randint_def)

lemma source_tile_sound:
  "sound_tile ((Tile_init POWER_SOURCE 0 e)\<lparr>power_connection_pattern := Some (choose_source_type c e')\<rparr>)"
proof -
  let ?t = "(Tile_init POWER_SOURCE 0 e)\<lparr>power_connection_pattern := Some (choose_source_type c e')\<rparr>"
  have "connections_defined ?t"
    using choose_source_type_bound[of c e']
    by (auto simp: connections_defined_def get_connections_def list_index_def Tile_init_def
        length_POWER_SOURCE_CONNECTIONS split: sum.splits)
  moreover have "max_rotation ?t = ROTATIONS (tile_type ?t)" by (simp add: Tile_init_def)
  ultimately show ?thesis using source_tile_invariant by (simp add: sound_tile_def)
qed

lemma grown_sources:
  "grown g cn \<Longrightarrow> \<forall>c\<in>set ps. inside g c \<Longrightarrow> grown (g\<lparr>power_sources := ps\<rparr>) cn"
  by (simp add: grown_def anchored_fields)

lemma place_sources_grown:
  assumes "grown g (set (power_sources g))" and "\<forall>p\<in>set avail. inside g p"
    and "distinct avail" and "set (power_sources g) \<inter> set avail = {}" and "bulbs g = []"
  shows "\<exists>rest g'. place_sources draws is avail g = Inr (rest, g') \<and>
           grown g' (set (power_sources g')) \<and> width g' = width g \<and> height g' = height g
           \<and> bulbs g' = []"
  using assms
proof (induction avail arbitrary: "is" g)
  case Nil
  then show ?case by (simp add: place_sources_exhausted)
next
  case (Cons a avail)
  obtain x y where a: "a = (x, y)" by (cases a)
  show ?case
  proof (cases "is")
    case Nil
    with Cons.prems show ?thesis by simp
  next
    case (Cons i rest_is)
    obtain e1 e2 e3 where d: "draws i = (e1, e2, e3)" by (cases "draws i")
    let ?t = "(Tile_init POWER_SOURCE 0 e3)
                \<lparr>power_connection_pattern := Some (choose_source_type (randint 1 4 e1) e2)\<rparr>"
    let ?g1 = "put_tile g (x, y) ?t"
    let ?g2 = "?g1\<lparr>power_sources := power_sources ?g1 @ [(x, y)]\<rparr>"
    note gr = Cons.prems(1)
    from gr have sh: "grid_shape g" by (simp add: grown_def)
    from Cons.prems(2) a have n: "inside g (x, y)" by simp
    then have v: "is_valid_position g x y" by simp
    from Cons.prems(4) a have nc: "(x, y) \<notin> set (power_sources g)" by auto
    have st: "set_tile g x y ?t = Inr ?g1" using set_tile_inside[OF sh v] .
    have "\<not> is_pipe (tile_type ?t)" by (simp add: is_pipe_def Tile_init_def)
    then have g1: "grown ?g1 (insert (x, y) (set (power_sources g)))"
      using grown_place[OF gr n nc source_tile_sound] by simp
    have "\<forall>c\<in>set (power_sources ?g1 @ [(x, y)]). inside ?g1 c"
      using gr n by (auto simp: grown_def inside_def)
    from grown_sources[OF g1 this]
    have g2: "grown ?g2 (set (power_sources ?g2))" by simp
    have in2: "\<forall>p\<in>set avail. inside ?g2 p"
      using Cons.prems(2) by (simp add: inside_def is_valid_position_def)
    have di2: "distinct avail" using Cons.prems(3) by simp
    have dj2: "set (power_sources ?g2) \<inter> set avail = {}"
      using Cons.prems(3,4) a by auto
    have b2: "bulbs ?g2 = []" using Cons.prems(5) by simp
    from Cons.IH[OF g2 in2 di2 dj2 b2, of rest_is] obtain rest g' where
      r: "place_sources draws rest_is avail ?g2 = Inr (rest, g')"
      "grown g' (set (power_sources g'))" "width g' = width ?g2" "height g' = height ?g2"
      "bulbs g' = []" by blast
    have "place_sources draws is (a # avail) g = Inr (rest, g')"
      unfolding Cons a using d st r(1) by simp
    with r(2-5) show ?thesis by simp
  qed
qed

lemma empty_grid_grown:
  "grown (g\<lparr>grid := replicate (height g) (replicate (width g) (Tile_init EMPTY 0 0)),
             bulbs := [], power_sources := []\<rparr>) {}"
proof -
  let ?g0 = "g\<lparr>grid := replicate (height g) (replicate (width g) (Tile_init EMPTY 0 0)),
               bulbs := [], power_sources := []\<rparr>"
  have sh: "grid_shape ?g0" by (simp add: grid_shape_def)
  have tile: "tile_of ?g0 c = Tile_init EMPTY 0 0" if "inside ?g0 c" for c
  proof -
    from that have "nat (snd c) < height g" "nat (fst c) < width g"
      by (auto simp: inside_def is_valid_position_def)
    then show ?thesis by (simp add: tile_of_def)
  qed
  have "sound_tile (Tile_init EMPTY 0 0)" by (rule Tile_init_sound) simp
  then have ev: "every_tile sound_tile ?g0" by (simp add: every_tile_def)
  have an: "anchored ?g0"
    unfolding anchored_def using tile by (auto simp: is_pipe_def Tile_init_def)
  have "\<forall>c. inside ?g0 c \<and> c \<notin> {} \<longrightarrow> tile_type (tile_of ?g0 c) = EMPTY"
    using tile by (simp add: Tile_init_def)
  with sh ev an show ?thesis by (simp add: grown_def)
qed

section \<open>The finalizer on anchored pipes\<close>

text \<open>The state of the generator after the growth: sound tiles, anchored pipes, sources
  and bulbs inside the grid.\<close>

definition settled :: "PuzzleGame \<Rightarrow> bool" where
  "settled g =
     (grid_shape g \<and> every_tile sound_tile g \<and> anchored g \<and>
      (\<forall>c\<in>set (power_sources g). inside g c) \<and>
      (\<forall>c\<in>set (bulbs g). inside g c))"

lemma grown_settled: "grown g cn \<Longrightarrow> settled g"
  by (simp add: grown_def settled_def)

lemma settled_well_formed: "settled g \<Longrightarrow> well_formed g"
  by (auto simp: settled_def well_formed_def inside_def dest: every_sound_defined)

lemma connecting_sound:
  assumes "grid_shape g" and "every_tile sound_tile g"
  shows "connecting g x y d \<longleftrightarrow>
         inside g (get_neighbor_position x y d) \<and>
         get_opposite_direction d \<in> set (open_directions (tile_of g (get_neighbor_position x y d)))"
proof -
  obtain nx ny where n: "get_neighbor_position x y d = (nx, ny)"
    by (cases "get_neighbor_position x y d")
  show ?thesis
  proof (cases "is_valid_position g nx ny")
    case False
    with n show ?thesis by (simp add: connecting_def)
  next
    case True
    have s: "sound_tile (tile_of g (nx, ny))" using every_tileD[OF assms(2,1) True] .
    note c = is_connected_to_open_directions[OF sound_tile_defined[OF s], of "get_opposite_direction d"]
    have "tile_type (tile_of g (nx, ny)) = EMPTY \<Longrightarrow>
          get_opposite_direction d \<notin> set (open_directions (tile_of g (nx, ny)))"
      using sound_empty_closed[OF s] by simp
    with n True c grid_at_inside[OF assms(1) True] show ?thesis
      by (auto simp: connecting_def)
  qed
qed

lemma fix_pipe_connections_settled:
  assumes se: "settled g" and v: "is_valid_position g x y"
    and pipe: "is_pipe (tile_type (tile_of g (x, y)))"
  shows "\<exists>g'. fix_pipe_connections g x y = Inr g' \<and> settled g' \<and>
           width g' = width g \<and> height g' = height g \<and>
           power_sources g' = power_sources g \<and> bulbs g' = bulbs g"
proof -
  let ?c = "(x, y)"
  let ?t = "tile_of g ?c"
  let ?S = "connecting_directions g x y"
  let ?t' = "fix_tile ?t ?S"
  let ?g' = "put_tile g ?c ?t'"
  from se have sh: "grid_shape g" and ev: "every_tile sound_tile g" and an: "anchored g"
    and si: "\<forall>c\<in>set (power_sources g). inside g c" and bi: "\<forall>c\<in>set (bulbs g). inside g c"
    by (simp_all add: settled_def)
  have weak: "every_tile (\<lambda>t. tile_type t \<noteq> EMPTY \<longrightarrow> connections_defined t) g"
    using ev by (simp add: every_tile_def sound_tile_def)
  have run: "fix_pipe_connections g x y = Inr ?g'"
    using sh v
    by (simp add: fix_pipe_connections_def grid_at_inside collect_neighbors_filter[OF sh weak]
        set_tile_inside connecting_directions_def)
  note conn = connecting_sound[OF sh ev, of x y]
  have all_dirs: "d \<in> set all_directions" for d by (cases d) (simp_all add: all_directions_def)
  have inS: "d \<in> set ?S \<longleftrightarrow> connecting g x y d" for d
    using all_dirs by (simp add: connecting_directions_def)
  from an v pipe obtain q0 where l0: "linked g ?c q0" unfolding anchored_def by fastforce
  then obtain d0 where d0: "d0 \<in> set (open_directions ?t)" "get_neighbor_position x y d0 = q0"
    "get_opposite_direction d0 \<in> set (open_directions (tile_of g q0))" "inside g q0"
    by (auto simp: linked_def inside_def)
  then have "connecting g x y d0" using conn by simp
  then have ne: "?S \<noteq> []" using inS by (metis empty_iff list.set(1))
  have st: "sound_tile ?t" using every_tileD[OF ev sh v] .
  from st pipe have nop: "power_connection_pattern ?t = None"
    by (auto simp: sound_tile_def tile_invariant_def is_pipe_def)
  from fix_tile_shaped[of "connecting g x y" ?t] ne
  have sf: "shaped_for ?S ?t'" by (simp add: connecting_directions_def)
  from sf ne have def': "connections_defined ?t'"
    and od': "set (open_directions ?t') = set ?S"
    by (auto simp: shaped_for_def connections_defined_def open_directions_def split: sum.splits)
  from fix_tile_invariant[of ?t "connecting g x y", OF nop] ne
  have "tile_invariant ?t' \<and> max_rotation ?t' = ROTATIONS (tile_type ?t')"
    by (simp add: connecting_directions_def)
  with def' have st': "sound_tile ?t'" by (simp add: sound_tile_def)
  have tile: "tile_of ?g' c = (if c = ?c then ?t' else tile_of g c)" if "inside g c" for c
    using tile_of_put_tile_inside[OF sh _ that, of ?c] v by simp
  have from_c: "linked ?g' ?c q" if l: "linked g ?c q" for q
  proof -
    from l obtain d where d: "d \<in> set (open_directions ?t)" "get_neighbor_position x y d = q"
      "get_opposite_direction d \<in> set (open_directions (tile_of g q))" "inside g q"
      by (auto simp: linked_def inside_def)
    then have "d \<in> set (open_directions ?t')" using conn inS od' by simp
    moreover have "q \<noteq> ?c" using linked_open[OF l] by auto
    ultimately show ?thesis
      unfolding linked_def using d v tile[OF d(4)] tile[of ?c]
      by (auto simp: inside_def intro!: bexI[of _ d])
  qed
  have keep: "linked ?g' p q" if l: "linked g p q" for p q
  proof (cases "p = ?c")
    case True
    with l from_c show ?thesis by simp
  next
    case pc: False
    show ?thesis
    proof (cases "q = ?c")
      case True
      from l have "linked g ?c p" unfolding True by (rule linked_sym)
      then have "linked ?g' ?c p" by (rule from_c)
      then show ?thesis unfolding True by (rule linked_sym)
    next
      case False
      from linked_open[OF l] have "inside g p" "inside g q" by simp_all
      with pc False tile have "open_directions (tile_of ?g' p) = open_directions (tile_of g p)"
        "open_directions (tile_of ?g' q) = open_directions (tile_of g q)" by simp_all
      from linked_local[OF _ _ this] l show ?thesis by simp
    qed
  qed
  have an': "anchored ?g'"
    unfolding anchored_def
  proof (intro allI impI)
    fix c assume h: "inside ?g' c \<and> is_pipe (tile_type (tile_of ?g' c))"
    then have c0: "inside g c" by (simp add: inside_def)
    have "\<exists>q. linked g c q"
    proof (cases "c = ?c")
      case True
      with l0 show ?thesis by blast
    next
      case False
      with h tile[OF c0] have "is_pipe (tile_type (tile_of g c))" by simp
      with an c0 show ?thesis unfolding anchored_def by blast
    qed
    then show "\<exists>q. linked ?g' c q" using keep by blast
  qed
  have ev': "every_tile sound_tile ?g'" using ev st' by (rule every_tile_put_tile)
  have "settled ?g'"
    unfolding settled_def using sh ev' an' si bi by (simp add: inside_def)
  with run show ?thesis by simp
qed

lemma finalize_cells_settled:
  assumes "settled g" and "\<forall>p\<in>set ps. inside g p"
  shows "\<exists>g'. finalize_cells g ps = Inr g' \<and> settled g' \<and>
           width g' = width g \<and> height g' = height g \<and>
           power_sources g' = power_sources g \<and> bulbs g' = bulbs g"
  using assms
proof (induction ps arbitrary: g)
  case Nil
  then show ?case by simp
next
  case (Cons p ps)
  obtain x y where p: "p = (x, y)" by (cases p)
  with Cons.prems(2) have v: "is_valid_position g x y" by simp
  from Cons.prems(1) have sh: "grid_shape g" by (simp add: settled_def)
  note at = grid_at_inside[OF sh v]
  show ?case
  proof (cases "is_pipe (tile_type (tile_of g (x, y)))")
    case False
    from Cons.IH[OF Cons.prems(1)] Cons.prems(2) obtain g' where
      "finalize_cells g ps = Inr g'" "settled g'" "width g' = width g" "height g' = height g"
      "power_sources g' = power_sources g" "bulbs g' = bulbs g" by auto
    with False p at show ?thesis by (simp add: is_pipe_def)
  next
    case True
    from fix_pipe_connections_settled[OF Cons.prems(1) v True] obtain g1 where
      g1: "fix_pipe_connections g x y = Inr g1" "settled g1" "width g1 = width g"
      "height g1 = height g" "power_sources g1 = power_sources g" "bulbs g1 = bulbs g" by blast
    have "\<forall>p\<in>set ps. inside g1 p"
      using Cons.prems(2) g1(3,4) by (simp add: inside_def is_valid_position_def)
    from Cons.IH[OF g1(2) this] obtain g' where
      r: "finalize_cells g1 ps = Inr g'" "settled g'" "width g' = width g1" "height g' = height g1"
      "power_sources g' = power_sources g1" "bulbs g' = bulbs g1" by blast
    have "finalize_cells g (p # ps) = Inr g'"
      using True p at g1(1) r(1) by (simp add: is_pipe_def)
    with r(2-6) g1(3-6) show ?thesis by simp
  qed
qed

lemma finalize_puzzle_settled:
  assumes "settled g"
  shows "\<exists>g'. finalize_puzzle g = Inr g' \<and> settled g' \<and>
           width g' = width g \<and> height g' = height g \<and>
           power_sources g' = power_sources g \<and> bulbs g' = bulbs g"
proof -
  have "\<forall>p\<in>set (all_positions g). inside g p"
    using all_positions_valid[of _ _ g] by (auto simp: inside_def)
  from finalize_cells_settled[OF assms this] show ?thesis by (simp add: finalize_puzzle_def)
qed

text \<open>The solver changes flags only, so it keeps a settled game settled.\<close>

lemma update_power_flow_settled:
  assumes "settled g"
  shows "\<exists>solved g'. update_power_flow g = Inr (solved, g') \<and> settled g' \<and>
           width g' = width g \<and> height g' = height g \<and>
           power_sources g' = power_sources g \<and> bulbs g' = bulbs g"
proof -
  from update_power_flow_flags[OF settled_well_formed[OF assms]] obtain solved g' where
    run: "update_power_flow g = Inr (solved, g')"
    and ag: "agrees g (g'\<lparr>is_solved := is_solved g\<rparr>)" by blast
  note after = agrees_after[OF ag]
  from assms have sh: "grid_shape g" and ev: "every_tile sound_tile g" and an: "anchored g"
    and si: "\<forall>c\<in>set (power_sources g). inside g c" and bi: "\<forall>c\<in>set (bulbs g). inside g c"
    by (simp_all add: settled_def)
  have dims: "width g' = width g" "height g' = height g"
    using ag by (simp_all add: agrees_def)
  have ins: "inside g' c = inside g c" for c
    using dims by (simp add: inside_def is_valid_position_def)
  have same: "same_but_flags (tile_of g c) (tile_of g' c)"
    and od: "open_directions (tile_of g' c) = open_directions (tile_of g c)"
    and ty: "tile_type (tile_of g' c) = tile_type (tile_of g c)" if "inside g c" for c
    using ag that by (cases c, simp add: agrees_def)+
  have ev': "every_tile sound_tile g'"
    unfolding every_tile_iff[OF after(1)]
  proof (intro allI impI)
    fix c assume "inside g' c"
    then have c0: "inside g c" using ins by simp
    with ev have "sound_tile (tile_of g c)" using every_tile_iff[OF sh] by blast
    with same[OF c0] show "sound_tile (tile_of g' c)" by (rule same_but_flags_sound)
  qed
  have an': "anchored g'"
    unfolding anchored_def
  proof (intro allI impI)
    fix c assume h: "inside g' c \<and> is_pipe (tile_type (tile_of g' c))"
    then have c0: "inside g c" using ins by simp
    with h ty an obtain q where l: "linked g c q" unfolding anchored_def by fastforce
    from linked_open[OF l] have "inside g q" by simp
    from linked_local[OF dims od[OF c0] od[OF this]] l show "\<exists>q. linked g' c q" by blast
  qed
  have "settled g'"
    unfolding settled_def using after(1,3,4) ev' an' si bi ins by simp
  with run dims after(3,4) show ?thesis by blast
qed

lemma all_sources_used_defined:
  assumes "grid_shape g" and "\<forall>p\<in>set ps. inside g p"
  shows "\<exists>b. all_sources_used g ps = Inr b"
  using assms(2)
proof (induction ps)
  case Nil
  show ?case by (intro exI[of _ True]) simp
next
  case (Cons p ps)
  obtain x y where p: "p = (x, y)" by (cases p)
  with Cons.prems have v: "is_valid_position g x y" by simp
  from Cons.prems have "\<forall>p\<in>set ps. inside g p" by simp
  from Cons.IH[OF this] obtain b where "all_sources_used g ps = Inr b" by blast
  then show ?case using p grid_at_inside[OF assms(1) v] by auto
qed

lemma repair_settled:
  assumes "settled g" and "\<forall>p\<in>set srcs. inside g p"
  shows "\<exists>g'. repair n srcs g = Inr g' \<and> settled g' \<and>
           width g' = width g \<and> height g' = height g \<and>
           power_sources g' = power_sources g \<and> bulbs g' = bulbs g"
  using assms
proof (induction n arbitrary: g)
  case 0
  then show ?case by simp
next
  case (Suc n)
  from Suc.prems(1) have sh: "grid_shape g" by (simp add: settled_def)
  from all_sources_used_defined[OF sh Suc.prems(2)] obtain b where
    b: "all_sources_used g srcs = Inr b" by blast
  show ?case
  proof (cases b)
    case True
    from Suc.IH[OF Suc.prems] obtain g' where
      "repair n srcs g = Inr g'" "settled g'" "width g' = width g" "height g' = height g"
      "power_sources g' = power_sources g" "bulbs g' = bulbs g" by blast
    with b True show ?thesis by simp
  next
    case False
    from finalize_puzzle_settled[OF Suc.prems(1)] obtain g1 where
      g1: "finalize_puzzle g = Inr g1" "settled g1" "width g1 = width g" "height g1 = height g"
      "power_sources g1 = power_sources g" "bulbs g1 = bulbs g" by blast
    from update_power_flow_settled[OF g1(2)] obtain solved g2 where
      g2: "update_power_flow g1 = Inr (solved, g2)" "settled g2" "width g2 = width g1"
      "height g2 = height g1" "power_sources g2 = power_sources g1" "bulbs g2 = bulbs g1"
      by blast
    have "\<forall>p\<in>set srcs. inside g2 p"
      using Suc.prems(2) g1(3,4) g2(3,4) by (simp add: inside_def is_valid_position_def)
    from Suc.IH[OF g2(2) this] obtain g' where
      r: "repair n srcs g2 = Inr g'" "settled g'" "width g' = width g2" "height g' = height g2"
      "power_sources g' = power_sources g2" "bulbs g' = bulbs g2" by blast
    have "repair (Suc n) srcs g = Inr g'" using b False g1(1) g2(1) r(1) by simp
    with r(2-6) g1(3-6) g2(3-6) show ?thesis by simp
  qed
qed

text \<open>\<open>randomize_rotations\<close> keeps every tile sound, and the sources and bulbs where
  they are.\<close>

lemma randomized_tile_sound:
  assumes "sound_tile t" and "tile_type t \<notin> {EMPTY, POWER_SOURCE}"
  shows "sound_tile (t\<lparr>max_rotation := ROTATIONS (tile_type t),
                       rotation := randint 0 (ROTATIONS (tile_type t) - 1) e\<rparr>)"
proof -
  let ?t' = "t\<lparr>max_rotation := ROTATIONS (tile_type t),
                rotation := randint 0 (ROTATIONS (tile_type t) - 1) e\<rparr>"
  have inv: "tile_invariant ?t'"
    using assms(1) by (intro randomized_tile_invariant) (simp add: sound_tile_def)
  moreover have "connections_defined ?t'"
    using inv assms(2) by (intro plain_tile_defined) simp_all
  ultimately show ?thesis by (simp add: sound_tile_def)
qed

lemma randomize_cells_sound:
  assumes "grid_shape g" and "every_tile sound_tile g" and "\<forall>p\<in>set ps. inside g p"
  shows "\<exists>g'. randomize_cells draw g ps = Inr g' \<and> grid_shape g' \<and> every_tile sound_tile g'
           \<and> width g' = width g \<and> height g' = height g
           \<and> power_sources g' = power_sources g \<and> bulbs g' = bulbs g
           \<and> (\<forall>c. inside g c \<longrightarrow>
                  tile_type (tile_of g' c) = tile_type (tile_of g c) \<and>
                  power_connection_pattern (tile_of g' c)
                    = power_connection_pattern (tile_of g c))"
  using assms
proof (induction ps arbitrary: g)
  case Nil
  then show ?case by simp
next
  case (Cons p ps)
  obtain x y where p: "p = (x, y)" by (cases p)
  with Cons.prems(3) have v: "is_valid_position g x y" by simp
  note sh = Cons.prems(1)
  note at = grid_at_inside[OF sh v]
  let ?t = "tile_of g (x, y)"
  show ?case
  proof (cases "tile_type ?t \<notin> {EMPTY, POWER_SOURCE}")
    case False
    from Cons.prems(3) have "\<forall>p\<in>set ps. inside g p" by simp
    from Cons.IH[OF Cons.prems(1,2) this] obtain g' where
      "randomize_cells draw g ps = Inr g'" "grid_shape g'" "every_tile sound_tile g'"
      "width g' = width g" "height g' = height g"
      "power_sources g' = power_sources g" "bulbs g' = bulbs g"
      "\<forall>c. inside g c \<longrightarrow>
           tile_type (tile_of g' c) = tile_type (tile_of g c) \<and>
           power_connection_pattern (tile_of g' c) = power_connection_pattern (tile_of g c)"
      by blast
    with False p at show ?thesis by simp
  next
    case True
    let ?t' = "?t\<lparr>max_rotation := ROTATIONS (tile_type ?t),
                  rotation := randint 0 (ROTATIONS (tile_type ?t) - 1) (draw (x, y))\<rparr>"
    let ?g1 = "put_tile g (x, y) ?t'"
    have "sound_tile ?t" using every_tileD[OF Cons.prems(2) sh v] .
    then have "sound_tile ?t'" using True by (rule randomized_tile_sound)
    then have ev1: "every_tile sound_tile ?g1"
      using Cons.prems(2) by (rule every_tile_put_tile[rotated])
    have sh1: "grid_shape ?g1" using sh by simp
    have in1: "\<forall>p\<in>set ps. inside ?g1 p" using Cons.prems(3) by simp
    from Cons.IH[OF sh1 ev1 in1] obtain g' where
      r: "randomize_cells draw ?g1 ps = Inr g'" "grid_shape g'" "every_tile sound_tile g'"
      "width g' = width ?g1" "height g' = height ?g1"
      "power_sources g' = power_sources ?g1" "bulbs g' = bulbs ?g1"
      and keep: "\<forall>c. inside ?g1 c \<longrightarrow>
           tile_type (tile_of g' c) = tile_type (tile_of ?g1 c) \<and>
           power_connection_pattern (tile_of g' c) = power_connection_pattern (tile_of ?g1 c)"
      by blast
    have "randomize_cells draw g (p # ps) = Inr g'"
      using True p at set_tile_inside[OF sh v, of ?t'] r(1) by simp
    moreover have "tile_type (tile_of g' c) = tile_type (tile_of g c) \<and>
           power_connection_pattern (tile_of g' c) = power_connection_pattern (tile_of g c)"
      if c0: "inside g c" for c
    proof -
      have "tile_of ?g1 c = (if c = (x, y) then ?t' else tile_of g c)"
        using tile_of_put_tile_inside[OF sh _ c0, of "(x, y)" ?t'] v by simp
      moreover have "inside ?g1 c" using c0 by simp
      with keep have "tile_type (tile_of g' c) = tile_type (tile_of ?g1 c) \<and>
           power_connection_pattern (tile_of g' c) = power_connection_pattern (tile_of ?g1 c)"
        by blast
      ultimately show ?thesis by (cases "c = (x, y)") simp_all
    qed
    ultimately show ?thesis using r(2-7) by simp
  qed
qed

lemma randomize_rotations_sound:
  assumes "grid_shape g" and "every_tile sound_tile g"
  shows "\<exists>g'. randomize_rotations draw g = Inr g' \<and> grid_shape g' \<and> every_tile sound_tile g'
           \<and> width g' = width g \<and> height g' = height g
           \<and> power_sources g' = power_sources g \<and> bulbs g' = bulbs g
           \<and> (\<forall>c. inside g c \<longrightarrow>
                  tile_type (tile_of g' c) = tile_type (tile_of g c) \<and>
                  power_connection_pattern (tile_of g' c)
                    = power_connection_pattern (tile_of g c))"
proof -
  have "\<forall>p\<in>set (all_positions g). inside g p"
    using all_positions_valid[of _ _ g] by (auto simp: inside_def)
  from randomize_cells_sound[OF assms this, of draw] show ?thesis
    by (simp add: randomize_rotations_def)
qed

text \<open>The solver keeps sound tiles sound on any well-formed game.\<close>

lemma update_power_flow_sound:
  assumes "well_formed g" and "every_tile sound_tile g"
  shows "\<exists>solved g'. update_power_flow g = Inr (solved, g') \<and> grid_shape g'
           \<and> every_tile sound_tile g' \<and> width g' = width g \<and> height g' = height g
           \<and> (\<forall>c. inside g c \<longrightarrow> same_but_flags (tile_of g c) (tile_of g' c))"
proof -
  from update_power_flow_flags[OF assms(1)] obtain solved g' where
    run: "update_power_flow g = Inr (solved, g')"
    and ag: "agrees g (g'\<lparr>is_solved := is_solved g\<rparr>)" by blast
  note after = agrees_after[OF ag]
  from assms(1) have sh: "grid_shape g" by (simp add: well_formed_def)
  have ins: "inside g' c = inside g c" for c
    using ag by (simp add: agrees_def inside_def is_valid_position_def)
  have "every_tile sound_tile g'"
    unfolding every_tile_iff[OF after(1)]
  proof (intro allI impI)
    fix c assume "inside g' c"
    then have c0: "inside g c" using ins by simp
    with assms(2) have s: "sound_tile (tile_of g c)" using every_tile_iff[OF sh] by blast
    from ag c0 have "same_but_flags (tile_of g c) (tile_of g' c)"
      by (cases c) (simp add: agrees_def)
    then show "sound_tile (tile_of g' c)" using s by (rule same_but_flags_sound)
  qed
  moreover have "width g' = width g" "height g' = height g"
    using ag by (simp_all add: agrees_def)
  moreover have "\<forall>c. inside g c \<longrightarrow> same_but_flags (tile_of g c) (tile_of g' c)"
  proof (intro allI impI)
    fix c assume "inside g c"
    with ag show "same_but_flags (tile_of g c) (tile_of g' c)"
      by (cases c) (simp add: agrees_def)
  qed
  ultimately show ?thesis using run after(1) by blast
qed

section \<open>Every operation keeps the tile invariant\<close>

lemma Tile_init_sound_any: "sound_tile (Tile_init tt rot e)"
proof (cases "tt = POWER_SOURCE")
  case False
  then show ?thesis by (rule Tile_init_sound)
next
  case True
  have "randint 0 12 e < 13" by (simp add: randint_def)
  then have "connections_defined (Tile_init tt rot e)"
    using True
    by (auto simp: connections_defined_def get_connections_def list_index_def Tile_init_def
        length_POWER_SOURCE_CONNECTIONS split: sum.splits)
  then show ?thesis
    using Tile_init_invariant[of tt rot e] by (simp add: sound_tile_def Tile_init_def)
qed

lemma rotate_tile_sound:
  assumes "sound_tile t"
  shows "sound_tile (snd (rotate_tile t))"
proof -
  from assms have i: "tile_invariant t" and m: "max_rotation t = ROTATIONS (tile_type t)"
    and d: "connections_defined t" by (simp_all add: sound_tile_def)
  have "max_rotation (snd (rotate_tile t)) = ROTATIONS (tile_type (snd (rotate_tile t)))"
    using m by (simp add: rotate_tile_def)
  with rotate_tile_invariant[OF i m] rotate_tile_defined[OF d m] show ?thesis
    by (simp add: sound_tile_def)
qed

text \<open>\<open>generate_puzzle\<close> returns, whatever is drawn, and leaves a grid of sound tiles.\<close>

lemma generate_puzzle_sound:
  assumes "distinct shuffled" and "set shuffled \<subseteq> set (all_positions g)"
  shows "\<exists>g'. generate_puzzle g difficulty shuffled source_draws growth_draws rotation_draws
                = Inr g'
           \<and> grid_shape g' \<and> every_tile sound_tile g'
           \<and> width g' = width g \<and> height g' = height g"
proof -
  let ?g0 = "g\<lparr>grid := replicate (height g) (replicate (width g) (Tile_init EMPTY 0 0)),
               bulbs := [], power_sources := []\<rparr>"
  have gr0: "grown ?g0 (set (power_sources ?g0))" using empty_grid_grown[of g] by simp
  have ins: "\<forall>p\<in>set shuffled. inside ?g0 p"
  proof
    fix p assume "p \<in> set shuffled"
    with assms(2) have "p \<in> set (all_positions g)" by blast
    then have "is_valid_position g (fst p) (snd p)"
      using all_positions_valid[of "fst p" "snd p" g] by simp
    then show "inside ?g0 p" by (simp add: inside_def is_valid_position_def)
  qed
  from place_sources_grown[OF gr0 ins assms(1), of source_draws "[0..<nat (num_sources difficulty)]"]
  obtain available g1 where
    g1: "place_sources source_draws [0..<nat (num_sources difficulty)] shuffled ?g0
           = Inr (available, g1)"
    "grown g1 (set (power_sources g1))" "width g1 = width g" "height g1 = height g" by auto
  let ?s0 = "\<lparr> game = g1, connected = set (power_sources g1), frontier = power_sources g1,
               available_positions = available, bulb_positions = [] \<rparr>"
  have "grown (game ?s0) (connected ?s0)" "set (frontier ?s0) \<subseteq> connected ?s0"
    using g1(2) by simp_all
  from grow_grown[OF this, of "num_bulbs difficulty" growth_draws 0] obtain s where
    s: "grow (num_bulbs difficulty) growth_draws 0 ?s0 = Inr s" "grown (game s) (connected s)"
    "width (game s) = width g1" "height (game s) = height g1"
    by auto
  from finalize_puzzle_settled[OF grown_settled[OF s(2)]] obtain g3 where
    g3: "finalize_puzzle (game s) = Inr g3" "settled g3"
    "width g3 = width (game s)" "height g3 = height (game s)" by blast
  from update_power_flow_settled[OF g3(2)] obtain solved g4 where
    g4: "update_power_flow g3 = Inr (solved, g4)" "settled g4"
    "width g4 = width g3" "height g4 = height g3" by blast
  have "\<forall>p\<in>set (power_sources g4). inside g4 p" using g4(2) by (simp add: settled_def)
  from repair_settled[OF g4(2) this, of 3] obtain g5 where
    g5: "repair 3 (power_sources g4) g4 = Inr g5" "settled g5"
    "width g5 = width g4" "height g5 = height g4" by blast
  from g5(2) have sh5: "grid_shape g5" and ev5: "every_tile sound_tile g5"
    and si5: "\<forall>c\<in>set (power_sources g5). inside g5 c" and bi5: "\<forall>c\<in>set (bulbs g5). inside g5 c"
    by (simp_all add: settled_def)
  from randomize_rotations_sound[OF sh5 ev5, of rotation_draws] obtain g6 where
    g6: "randomize_rotations rotation_draws g5 = Inr g6" "grid_shape g6"
    "every_tile sound_tile g6" "width g6 = width g5" "height g6 = height g5"
    "power_sources g6 = power_sources g5" "bulbs g6 = bulbs g5" by blast
  have "well_formed g6"
    unfolding well_formed_def
    using g6(2-7) si5 bi5 every_sound_defined[OF g6(3)]
    by (auto simp: inside_def is_valid_position_def)
  from update_power_flow_sound[OF this g6(3)] obtain solved' g7 where
    g7: "update_power_flow g6 = Inr (solved', g7)" "grid_shape g7" "every_tile sound_tile g7"
    "width g7 = width g6" "height g7 = height g6"
    by blast
  have "generate_puzzle g difficulty shuffled source_draws growth_draws rotation_draws = Inr g7"
    using g1(1) s(1) g3(1) g4(1) g5(1) g6(1) g7(1)
    by (simp add: generate_puzzle_def generate_puzzle_sources_def)
  moreover have "width g7 = width g" "height g7 = height g"
    using g1(3,4) s(3,4) g3(3,4) g4(3,4) g5(3,4) g6(4,5) g7(4,5) by simp_all
  ultimately show ?thesis using g7(2,3) by blast
qed

text \<open>C8: every operation keeps each tile sound, that is, with a rotation below the
  cardinality of its variant, a pattern set exactly on a power source, the cardinality of
  the variant stored, and defined connections. This holds for the constructor and
  \<open>rotate()\<close> on a tile, which keeps the variant; for \<open>randomize_rotations\<close> and the
  solver on a grid of sound tiles, which keep the size of the grid and the variant and
  pattern of every tile; for \<open>fix_pipe_connections\<close> on a pipe of a settled grid, where
  every pipe has a reciprocally open edge, the state in which \<open>generate_puzzle\<close> calls it;
  and for \<open>generate_puzzle\<close> as a whole, which returns a grid of the size of the game for
  all draws.\<close>

theorem operations_keep_tile_invariant:
  "sound_tile (Tile_init tt rot e)
   \<and> (sound_tile t \<longrightarrow>
        sound_tile (snd (rotate_tile t)) \<and>
        tile_type (snd (rotate_tile t)) = tile_type t \<and>
        rotation t < ROTATIONS (tile_type t) \<and>
        (power_connection_pattern t \<noteq> None) = (tile_type t = POWER_SOURCE))
   \<and> (settled g1 \<and> is_valid_position g1 x y \<and> is_pipe (tile_type (tile_of g1 (x, y))) \<longrightarrow>
        (\<exists>g'. fix_pipe_connections g1 x y = Inr g' \<and> settled g' \<and> every_tile sound_tile g'
             \<and> width g' = width g1 \<and> height g' = height g1))
   \<and> (grid_shape g2 \<and> every_tile sound_tile g2 \<longrightarrow>
        (\<exists>g'. randomize_rotations draw g2 = Inr g' \<and> grid_shape g' \<and> every_tile sound_tile g'
             \<and> width g' = width g2 \<and> height g' = height g2
             \<and> (\<forall>c. inside g2 c \<longrightarrow>
                    tile_type (tile_of g' c) = tile_type (tile_of g2 c) \<and>
                    power_connection_pattern (tile_of g' c)
                      = power_connection_pattern (tile_of g2 c))))
   \<and> (well_formed g3 \<and> every_tile sound_tile g3 \<longrightarrow>
        (\<exists>solved g'. update_power_flow g3 = Inr (solved, g') \<and> grid_shape g'
             \<and> every_tile sound_tile g' \<and> width g' = width g3 \<and> height g' = height g3
             \<and> (\<forall>c. inside g3 c \<longrightarrow> same_but_flags (tile_of g3 c) (tile_of g' c))))
   \<and> (distinct shuffled \<and> set shuffled \<subseteq> set (all_positions g4) \<longrightarrow>
        (\<exists>g'. generate_puzzle g4 difficulty shuffled source_draws growth_draws rotation_draws
                 = Inr g'
             \<and> grid_shape g' \<and> every_tile sound_tile g'
             \<and> width g' = width g4 \<and> height g' = height g4))"
proof (intro conjI impI)
  show "sound_tile (Tile_init tt rot e)" by (rule Tile_init_sound_any)
next
  assume "sound_tile t"
  then show "sound_tile (snd (rotate_tile t))" by (rule rotate_tile_sound)
next
  show "tile_type (snd (rotate_tile t)) = tile_type t" by (simp add: rotate_tile_def)
next
  assume "sound_tile t"
  then show "rotation t < ROTATIONS (tile_type t)"
    by (simp add: sound_tile_def tile_invariant_def)
next
  assume "sound_tile t"
  then show "(power_connection_pattern t \<noteq> None) = (tile_type t = POWER_SOURCE)"
    by (simp add: sound_tile_def tile_invariant_def)
next
  assume a: "settled g1 \<and> is_valid_position g1 x y \<and> is_pipe (tile_type (tile_of g1 (x, y)))"
  then have "\<exists>g'. fix_pipe_connections g1 x y = Inr g' \<and> settled g' \<and>
           width g' = width g1 \<and> height g' = height g1 \<and>
           power_sources g' = power_sources g1 \<and> bulbs g' = bulbs g1"
    by (intro fix_pipe_connections_settled) simp_all
  then show "\<exists>g'. fix_pipe_connections g1 x y = Inr g' \<and> settled g' \<and> every_tile sound_tile g'
             \<and> width g' = width g1 \<and> height g' = height g1"
    by (auto simp: settled_def)
next
  assume a: "grid_shape g2 \<and> every_tile sound_tile g2"
  then have sh: "grid_shape g2" and ev: "every_tile sound_tile g2" by simp_all
  from randomize_rotations_sound[OF sh ev, of draw]
  show "\<exists>g'. randomize_rotations draw g2 = Inr g' \<and> grid_shape g' \<and> every_tile sound_tile g'
             \<and> width g' = width g2 \<and> height g' = height g2
             \<and> (\<forall>c. inside g2 c \<longrightarrow>
                    tile_type (tile_of g' c) = tile_type (tile_of g2 c) \<and>
                    power_connection_pattern (tile_of g' c)
                      = power_connection_pattern (tile_of g2 c))"
    by blast
next
  assume "well_formed g3 \<and> every_tile sound_tile g3"
  then show "\<exists>solved g'. update_power_flow g3 = Inr (solved, g') \<and> grid_shape g'
             \<and> every_tile sound_tile g' \<and> width g' = width g3 \<and> height g' = height g3
             \<and> (\<forall>c. inside g3 c \<longrightarrow> same_but_flags (tile_of g3 c) (tile_of g' c))"
    by (intro update_power_flow_sound) simp_all
next
  assume "distinct shuffled \<and> set shuffled \<subseteq> set (all_positions g4)"
  then show "\<exists>g'. generate_puzzle g4 difficulty shuffled source_draws growth_draws rotation_draws
                 = Inr g'
             \<and> grid_shape g' \<and> every_tile sound_tile g'
             \<and> width g' = width g4 \<and> height g' = height g4"
    by (intro generate_puzzle_sound) simp_all
qed

lemma example_game_inside:
  "inside example_game c \<longleftrightarrow> c = (0, 0) \<or> c = (1, 0) \<or> c = (2, 0)"
  by (cases c) (auto simp: inside_def is_valid_position_def example_game_def)

lemma example_game_sound: "every_tile sound_tile example_game"
  by (simp add: example_eval sound_tile_def tile_invariant_def)

lemma example_game_settled: "settled example_game"
proof -
  have "linked example_game (1, 0) (2, 0)"
    by (simp add: linked_def open_directions_def tile_of_def example_eval)
  then have "anchored example_game"
    unfolding anchored_def example_game_inside
    by (auto simp: is_pipe_def tile_of_def example_game_def Tile_init_def)
  then show ?thesis
    using example_game_shape example_game_sound
    by (simp add: settled_def example_game_inside) (simp add: example_game_def)
qed

theorem operations_keep_tile_invariant_witness:
  "sound_tile (Tile_init ELBOW 3 0)
   \<and> sound_tile (snd (rotate_tile (Tile_init STRAIGHT 1 0)))
   \<and> (\<exists>g'. fix_pipe_connections example_game 1 0 = Inr g' \<and> every_tile sound_tile g'
          \<and> width g' = 3 \<and> height g' = 1)
   \<and> (\<exists>g'. randomize_rotations (\<lambda>p. 1) example_game = Inr g' \<and> every_tile sound_tile g'
          \<and> width g' = 3 \<and> height g' = 1)
   \<and> (\<exists>solved g'. update_power_flow example_game = Inr (solved, g') \<and> every_tile sound_tile g'
          \<and> width g' = 3 \<and> height g' = 1)
   \<and> (\<exists>g'. generate_puzzle example_game 1 [(1, 0), (0, 0), (2, 0)] (\<lambda>i. (1, 2, 5))
               (\<lambda>i. (0, i, i = 1, 0, 0)) (\<lambda>p. 1) = Inr g'
          \<and> every_tile sound_tile g' \<and> width g' = 3 \<and> height g' = 1)"
proof -
  have t: "sound_tile (Tile_init STRAIGHT 1 0)" by (rule Tile_init_sound) simp
  have v: "is_valid_position example_game 1 0" by (simp add: example_eval)
  have p: "is_pipe (tile_type (tile_of example_game (1, 0)))"
    by (simp add: is_pipe_def tile_of_def example_game_def Tile_init_def)
  have d: "distinct [(1, 0), (0, 0), (2::int, 0::int)]" by simp
  have s: "set [(1, 0), (0, 0), (2, 0)] \<subseteq> set (all_positions example_game)"
    by (simp add: all_positions_valid example_game_def is_valid_position_def)
  from operations_keep_tile_invariant
    [of ELBOW 3 0 "Tile_init STRAIGHT 1 0" example_game 1 0 example_game "\<lambda>p. 1" example_game
        "[(1, 0), (0, 0), (2, 0)]" example_game 1 "\<lambda>i. (1, 2, 5)" "\<lambda>i. (0, i, i = 1, 0, 0)"
        "\<lambda>p. 1"]
    t v p d s example_game_settled example_game_shape example_game_sound example_game_well_formed
  have "sound_tile (Tile_init ELBOW 3 0)
   \<and> sound_tile (snd (rotate_tile (Tile_init STRAIGHT 1 0)))
   \<and> (\<exists>g'. fix_pipe_connections example_game 1 0 = Inr g' \<and> every_tile sound_tile g'
          \<and> width g' = width example_game \<and> height g' = height example_game)
   \<and> (\<exists>g'. randomize_rotations (\<lambda>p. 1) example_game = Inr g' \<and> every_tile sound_tile g'
          \<and> width g' = width example_game \<and> height g' = height example_game)
   \<and> (\<exists>solved g'. update_power_flow example_game = Inr (solved, g') \<and> every_tile sound_tile g'
          \<and> width g' = width example_game \<and> height g' = height example_game)
   \<and> (\<exists>g'. generate_puzzle example_game 1 [(1, 0), (0, 0), (2, 0)] (\<lambda>i. (1, 2, 5))
               (\<lambda>i. (0, i, i = 1, 0, 0)) (\<lambda>p. 1) = Inr g'
          \<and> every_tile sound_tile g'
          \<and> width g' = width example_game \<and> height g' = height example_game)"
    by blast
  then show ?thesis by (simp add: example_game_def)
qed

end
